theory Spec2Isabelle
  imports
    Main
    "HOL-Library.Word"
    "HOL-Library.Multiset"
    "HOL-Library.Char_ord"
    "HOL-Library.List_Lexorder"
begin

unbundle bit_operations_syntax

section \<open>Python errors\<close>

text \<open>The exceptions the modelled code can raise; a failing call returns \<open>Inl\<close> of one.\<close>

datatype py_error =
    AttributeError | KeyError | IndexError | AssertionError | RuntimeError
  | ValueError | StopIteration | UnicodeEncodeError | ZeroDivisionError | TypeError

section \<open>IO containers (io.py)\<close>

text \<open>
  Python objects live in a store: a list of cells, a reference is the index of a cell.
  An entry of an \<open>AutonamedDict\<close> (an \<open>InputParameter\<close>, \<open>InputArtifact\<close>,
  \<open>OutputParameter\<close> or \<open>OutputArtifact\<close>) is an object with a \<open>name\<close> attribute,
  \<open>None\<close> by default; \<open>attrs\<close> stands for all its other attributes (\<open>step_id\<close>,
  \<open>type\<close>, \<open>value\<close>, \<open>path\<close>, \<open>save\<close>, ...), which the object owns.
\<close>

type_synonym ref = nat

record 'a entry =
  name :: "string option"
  attrs :: 'a

type_synonym 'a store = "'a entry list"

text \<open>
  \<open>copy.deepcopy\<close>: a new object, allocated at the next free reference, whose whole content
  equals the original's. The original is an allocated object (\<open>value < length h\<close>).
\<close>

definition deepcopy :: "'a store \<Rightarrow> ref \<Rightarrow> ref \<times> 'a store" where
  "deepcopy h v = (length h, h @ [h ! v])"

text \<open>Attribute assignment \<open>value.name = key\<close>.\<close>

definition set_name :: "'a store \<Rightarrow> ref \<Rightarrow> string \<Rightarrow> 'a store" where
  "set_name h v key = h[v := (h ! v)\<lparr>name := Some key\<rparr>]"

text \<open>
  \<open>AutonamedDict.__setitem__(self, key, value)\<close>; the dictionary \<open>self.data\<close> maps keys to
  references.
  \<^verbatim>\<open>
    value = deepcopy(value)
    value.name = key
    super().__setitem__(key, value)
  \<close>
\<close>

definition AutonamedDict_setitem ::
  "(string \<rightharpoonup> ref) \<Rightarrow> string \<Rightarrow> ref \<Rightarrow> 'a store \<Rightarrow> (string \<rightharpoonup> ref) \<times> 'a store" where
  "AutonamedDict_setitem d key v h =
     (let (v', h1) = deepcopy h v;
          h2 = set_name h1 v' key
      in (d(key \<mapsto> v'), h2))"

text \<open>Any later mutation of the object \<open>p\<close>: its cell gets a new content.\<close>

definition mutate :: "'a store \<Rightarrow> ref \<Rightarrow> 'a entry \<Rightarrow> 'a store" where
  "mutate h p obj = h[p := obj]"

section \<open>Pod names (argo_objects.py: get_pod_name, fnva)\<close>

text \<open>
  A Python \<open>str\<close> is a sequence of Unicode code points (numbers below \<open>0x110000\<close>) and
  \<open>len\<close> counts code points; \<open>bytes\<close> is a sequence of 8-bit values. \<open>str\<close> writes a
  literal.
\<close>

type_synonym pystr = "nat list"
type_synonym byte = "8 word"

definition str :: "string \<Rightarrow> pystr" where
  "str s = map of_char s"

text \<open>
  \<open>node_name.encode()\<close>: strict UTF-8. A surrogate code point cannot be encoded and
  raises \<open>UnicodeEncodeError\<close>.
\<close>

definition utf8 :: "nat \<Rightarrow> py_error + byte list" where
  "utf8 c =
     (if c < 0x80 then Inr [of_nat c]
      else if c < 0x800 then Inr [of_nat (0xC0 + c div 64), of_nat (0x80 + c mod 64)]
      else if 0xD800 \<le> c \<and> c < 0xE000 then Inl UnicodeEncodeError
      else if c < 0x10000 then
        Inr [of_nat (0xE0 + c div 4096), of_nat (0x80 + c div 64 mod 64), of_nat (0x80 + c mod 64)]
      else
        Inr [of_nat (0xF0 + c div 262144), of_nat (0x80 + c div 4096 mod 64),
             of_nat (0x80 + c div 64 mod 64), of_nat (0x80 + c mod 64)])"

fun encode :: "pystr \<Rightarrow> py_error + byte list" where
  "encode [] = Inr []"
| "encode (c # cs) =
     (case utf8 c of
        Inl e \<Rightarrow> Inl e
      | Inr bs \<Rightarrow> (case encode cs of Inl e \<Rightarrow> Inl e | Inr rest \<Rightarrow> Inr (bs @ rest)))"

text \<open>\<open>"%s" % n\<close> for an integer: its decimal digits, with a sign when negative.\<close>

fun str_nat :: "nat \<Rightarrow> pystr" where
  "str_nat n = (if n < 10 then [48 + n] else str_nat (n div 10) @ [48 + n mod 10])"

declare str_nat.simps [simp del]

definition str_int :: "int \<Rightarrow> pystr" where
  "str_int i = (if i < 0 then 45 # str_nat (nat (- i)) else str_nat (nat i))"

definition max_k8s_resource_name_length :: int where
  "max_k8s_resource_name_length = 253"

definition k8s_naming_hash_length :: int where
  "k8s_naming_hash_length = 10"

definition FNV_32_PRIME :: int where
  "FNV_32_PRIME = 0x01000193"

definition FNV1_32_INIT :: int where
  "FNV1_32_INIT = 0x811c9dc5"

text \<open>
  \<^verbatim>\<open>
    hval = hval_init
    for byte in data:
        hval = hval ^ byte
        hval = (hval * fnv_prime) % fnv_size
    return hval
  \<close>
  on Python's unbounded integers; \<open>%\<close> raises on a zero modulus.
\<close>

fun fnva :: "byte list \<Rightarrow> int \<Rightarrow> int \<Rightarrow> int \<Rightarrow> py_error + int" where
  "fnva [] hval fnv_prime fnv_size = Inr hval"
| "fnva (b # data) hval fnv_prime fnv_size =
     (if fnv_size = 0 then Inl ZeroDivisionError
      else fnva data (((hval XOR uint b) * fnv_prime) mod fnv_size) fnv_prime fnv_size)"

definition get_pod_name :: "pystr \<Rightarrow> pystr \<Rightarrow> pystr \<Rightarrow> pystr \<Rightarrow> py_error + pystr" where
  "get_pod_name wf_name node_name template_name node_id =
     (if wf_name = node_name then Inr wf_name
      else
        let prefix = wf_name @ str ''-'' @ template_name;
            max_prefix_length = max_k8s_resource_name_length - k8s_naming_hash_length;
            prefix = (if int (length prefix) > max_prefix_length - 1
                      then take (nat (max_prefix_length - 1)) prefix else prefix)
        in case encode node_name of
             Inl e \<Rightarrow> Inl e
           | Inr data \<Rightarrow>
               (case fnva data FNV1_32_INIT FNV_32_PRIME (2 ^ 32) of
                  Inl e \<Rightarrow> Inl e
                | Inr hash_val \<Rightarrow> Inr (prefix @ str ''-'' @ str_int hash_val)))"

text \<open>
  The specification's hash, following its words: the 32-bit FNV-1a hash of a byte sequence,
  on 32-bit words (offset basis \<open>0x811c9dc5\<close>, prime \<open>0x01000193\<close>; for each byte,
  xor then multiply, both wrapping).
\<close>

definition fnv1a_32 :: "byte list \<Rightarrow> 32 word" where
  "fnv1a_32 bs = fold (\<lambda>b h. (h XOR ucast b) * 0x01000193) bs 0x811c9dc5"

section \<open>Live status objects (argo_objects.py): output artifacts\<close>

text \<open>A parsed JSON value, as the engine's status documents carry them.\<close>

datatype json =
    JNull | JBool bool | JInt int | JStr string
  | JList "json list" | JDict "(string \<times> json) list"

text \<open>
  An \<open>ArgoStep\<close> after \<open>handle_io\<close>: its \<open>outputs\<close> block, when present, holds a
  dictionary of artifacts and a dictionary of parameters keyed by name, each absent when
  the document has no such field. An artifact is an \<open>ArgoObjectDict\<close>: a dictionary from
  field names to values; \<open>hasattr(art, f)\<close> is \<open>art f \<noteq> None\<close>. Of a parameter only the
  stored \<open>value\<close> text is modelled (\<open>None\<close>: no such field).
\<close>

type_synonym artifact = "string \<rightharpoonup> json"

record parameter =
  par_value :: "string option"

record io =
  parameters :: "(string \<rightharpoonup> parameter) option"
  artifacts :: "(string \<rightharpoonup> artifact) option"

record ArgoStep =
  outputs :: "io option"

text \<open>
  The argument \<open>s3\<close> of \<open>modify_output_artifact\<close>, seen through what the method reads
  of it: whether it is an \<open>S3Artifact\<close>, its \<open>key\<close> (\<open>None\<close> is Python's \<open>None\<close>), its
  \<open>local_path\<close> attribute (\<open>None\<close>: no such attribute), and the documents that
  \<open>s3.to_dict()\<close> and \<open>s3.oss().to_dict()\<close> return (methods of the engine's client
  library).
\<close>

record s3_object =
  isS3Artifact :: bool
  key :: "string option"
  local_path :: "json option"
  to_dict :: json
  oss_to_dict :: json

text \<open>The settings read: \<open>config["mode"]\<close> and \<open>s3_config["repo_type"]\<close>.\<close>

record settings =
  mode :: string
  repo_type :: string

text \<open>
  \<open>self.outputs.artifacts[name]\<close>: \<open>AttributeError\<close> without the \<open>outputs\<close> or
  \<open>artifacts\<close> field, \<open>KeyError\<close> without the artifact.
\<close>

definition get_output_artifact :: "ArgoStep \<Rightarrow> string \<Rightarrow> py_error + artifact" where
  "get_output_artifact self aname =
     (case outputs self of
        None \<Rightarrow> Inl AttributeError
      | Some out \<Rightarrow>
          (case artifacts out of
             None \<Rightarrow> Inl AttributeError
           | Some arts \<Rightarrow> (case arts aname of None \<Rightarrow> Inl KeyError | Some art \<Rightarrow> Inr art)))"

definition put_output_artifact :: "ArgoStep \<Rightarrow> string \<Rightarrow> artifact \<Rightarrow> ArgoStep" where
  "put_output_artifact self aname art =
     self\<lparr>outputs := map_option (\<lambda>out. out\<lparr>artifacts := map_option (\<lambda>arts. arts(aname \<mapsto> art)) (artifacts out)\<rparr>) (outputs self)\<rparr>"

definition set_artifact_field :: "ArgoStep \<Rightarrow> string \<Rightarrow> string \<Rightarrow> json \<Rightarrow> py_error + ArgoStep" where
  "set_artifact_field self aname field v =
     (case get_output_artifact self aname of
        Inl e \<Rightarrow> Inl e
      | Inr art \<Rightarrow> Inr (put_output_artifact self aname (art(field \<mapsto> v))))"

definition del_artifact_field :: "ArgoStep \<Rightarrow> string \<Rightarrow> string \<Rightarrow> py_error + ArgoStep" where
  "del_artifact_field self aname field =
     (case get_output_artifact self aname of
        Inl e \<Rightarrow> Inl e
      | Inr art \<Rightarrow> Inr (put_output_artifact self aname (art(field := None))))"

text \<open>The slice \<open>s[-4:]\<close>: the last four characters, or all of a shorter string.\<close>

definition last4 :: "string \<Rightarrow> string" where
  "last4 s = drop (length s - 4) s"

text \<open>
  \<^verbatim>\<open>
    if config["mode"] == "debug":
        self.outputs.artifacts[name].local_path = s3.local_path
        return
    assert isinstance(s3, S3Artifact), "must provide a S3Artifact object"
    if s3_config["repo_type"] == "s3":
        self.outputs.artifacts[name].s3 = ArgoObjectDict(s3.to_dict())
    elif s3_config["repo_type"] == "oss":
        self.outputs.artifacts[name].oss = ArgoObjectDict(s3.oss().to_dict())
    if s3.key[-4:] == ".tgz" and hasattr(self.outputs.artifacts[name], "archive"):
        del self.outputs.artifacts[name]["archive"]
    elif s3.key[-4:] != ".tgz" and not hasattr(self.outputs.artifacts[name], "archive"):
        self.outputs.artifacts[name]["archive"] = {"none": {}}
  \<close>
  The step is passed in and returned updated.
\<close>

definition modify_output_artifact ::
  "settings \<Rightarrow> ArgoStep \<Rightarrow> string \<Rightarrow> s3_object \<Rightarrow> py_error + ArgoStep" where
  "modify_output_artifact cfg self aname s3 =
     (if mode cfg = ''debug'' then
        (case local_path s3 of
           None \<Rightarrow> Inl AttributeError
         | Some lp \<Rightarrow> set_artifact_field self aname ''local_path'' lp)
      else if \<not> isS3Artifact s3 then Inl AssertionError
      else
        case (if repo_type cfg = ''s3'' then set_artifact_field self aname ''s3'' (to_dict s3)
              else if repo_type cfg = ''oss'' then set_artifact_field self aname ''oss'' (oss_to_dict s3)
              else Inr self) of
          Inl e \<Rightarrow> Inl e
        | Inr self1 \<Rightarrow>
            (case key s3 of
               None \<Rightarrow> Inl TypeError
             | Some k \<Rightarrow>
                 (case get_output_artifact self1 aname of
                    Inl e \<Rightarrow> Inl e
                  | Inr art \<Rightarrow>
                      if last4 k = ''.tgz'' \<and> art ''archive'' \<noteq> None
                      then del_artifact_field self1 aname ''archive''
                      else if last4 k \<noteq> ''.tgz'' \<and> art ''archive'' = None
                      then set_artifact_field self1 aname ''archive'' (JDict [(''none'', JDict [])])
                      else Inr self1)))"

section \<open>Live status objects (argo_objects.py): sliced output artifacts\<close>

text \<open>
  A record of the slice manifest (the decoded value of the parameter
  \<open>dflow_<name>_path_list\<close>), and the \<open>path\<close> argument: one path or a list of paths.
\<close>

record slice_item =
  dflow_list_item :: string
  order :: int

datatype path_arg = OnePath string | PathList "string list"

definition as_list :: "path_arg \<Rightarrow> string list" where
  "as_list path = (case path of OnePath p \<Rightarrow> [p] | PathList ps \<Rightarrow> ps)"

text \<open>
  List item assignment \<open>xs[i] = v\<close>: a negative index counts from the end, an index out of
  range raises \<open>IndexError\<close>.
\<close>

definition list_setitem :: "'a list \<Rightarrow> int \<Rightarrow> 'a \<Rightarrow> py_error + 'a list" where
  "list_setitem xs i v =
     (if 0 \<le> i \<and> i < int (length xs) then Inr (xs[nat i := v])
      else if i < 0 \<and> - int (length xs) \<le> i then Inr (xs[nat (int (length xs) + i) := v])
      else Inl IndexError)"

text \<open>
  \<^verbatim>\<open>
    for local_path, item in zip(path, path_list):
        new_path[item["order"]] = local_path
  \<close>
\<close>

fun place :: "(string \<times> slice_item) list \<Rightarrow> string option list \<Rightarrow> py_error + string option list" where
  "place [] new_path = Inr new_path"
| "place ((p, item) # rest) new_path =
     (case list_setitem new_path (order item) (Some p) of
        Inl e \<Rightarrow> Inl e
      | Inr new_path' \<Rightarrow> place rest new_path')"

text \<open>
  The manifest parameter that the assertion asks for:
  \<^verbatim>\<open>
    hasattr(self, "outputs") and hasattr(self.outputs, "parameters") and
        "dflow_%s_path_list" % name in self.outputs.parameters
  \<close>
\<close>

definition sliced_manifest :: "ArgoStep \<Rightarrow> string \<Rightarrow> parameter option" where
  "sliced_manifest self aname =
     (case outputs self of
        None \<Rightarrow> None
      | Some out \<Rightarrow>
          (case parameters out of
             None \<Rightarrow> None
           | Some pars \<Rightarrow> pars (''dflow_'' @ aname @ ''_path_list'')))"

text \<open>
  \<^verbatim>\<open>
    path_list = jsonpickle.loads(self.outputs.parameters["dflow_%s_path_list" % name].value)
    if not isinstance(path, list):
        path = [path]
    assert len(path_list) == len(path), ...
    path_list.sort(key=lambda x: x['order'])
    new_path = [None] * (path_list[-1]['order'] + 1)
    for local_path, item in zip(path, path_list):
        new_path[item["order"]] = local_path
    s3 = upload_artifact(new_path, archive=None)
    self.modify_output_artifact(name, s3)
  \<close>
  \<open>jsonpickle.loads\<close> and \<open>upload_artifact\<close> are external and passed in as \<open>loads\<close> and
  \<open>upload_artifact\<close>; \<open>list.sort\<close> is stable, as \<open>sort_key\<close> is; \<open>path_list[-1]\<close> raises
  \<open>IndexError\<close> on an empty list.
\<close>

definition upload_and_modify_sliced_output_artifact ::
  "settings \<Rightarrow> (string \<Rightarrow> py_error + slice_item list) \<Rightarrow> (string option list \<Rightarrow> py_error + s3_object)
     \<Rightarrow> ArgoStep \<Rightarrow> string \<Rightarrow> path_arg \<Rightarrow> py_error + ArgoStep" where
  "upload_and_modify_sliced_output_artifact cfg loads upload_artifact self aname path =
     (case sliced_manifest self aname of
        None \<Rightarrow> Inl AssertionError
      | Some par \<Rightarrow>
     (case par_value par of
        None \<Rightarrow> Inl AttributeError
      | Some v \<Rightarrow>
     (case loads v of
        Inl e \<Rightarrow> Inl e
      | Inr path_list \<Rightarrow>
          let path = as_list path in
          if length path_list \<noteq> length path then Inl AssertionError
          else
            let path_list = sort_key order path_list in
            if path_list = [] then Inl IndexError
            else
              case place (zip path path_list) (replicate (nat (order (last path_list) + 1)) None) of
                Inl e \<Rightarrow> Inl e
              | Inr new_path \<Rightarrow>
                  (case upload_artifact new_path of
                     Inl e \<Rightarrow> Inl e
                   | Inr s3 \<Rightarrow> modify_output_artifact cfg self aname s3))))"

section \<open>Live status objects (argo_objects.py): get_step\<close>

text \<open>
  A node document of \<open>status.nodes\<close>, with the fields that \<open>get_step\<close> and the constructor
  of \<open>ArgoStep\<close> read. A field the document may lack is an option (\<open>None\<close>: no such key, so
  that \<open>step["..."]\<close> raises \<open>KeyError\<close> and \<open>step....\<close> raises \<open>AttributeError\<close>);
  \<open>startedAt\<close> may also be present with the value \<open>None\<close>. The \<open>inputs\<close> and the \<open>outputs\<close>
  of a node are documents with the engine's lists \<open>parameters\<close>, of \<open>{name, value,
  description}\<close> documents, and \<open>artifacts\<close>, of documents of which the \<open>name\<close> is read. A
  \<open>description\<close> that is \<open>None\<close> is read like a missing one.
\<close>

datatype timestamp = NoField | NoneValue | Time string

record raw_parameter =
  raw_name :: "string option"
  raw_value :: "string option"
  raw_description :: "string option"

record raw_artifact =
  artifact_name :: "string option"

record raw_inputs =
  raw_parameters :: "raw_parameter list option"
  raw_artifacts :: "raw_artifact list option"

record node =
  startedAt :: timestamp
  displayName :: "string option"
  node_inputs :: "raw_inputs option"
  node_outputs :: "raw_inputs option"
  nodePhase :: "string option"
  nodeType :: "string option"
  nodeId :: "string option"

record workflow_status =
  nodes :: "(string \<times> node) list option"

record ArgoWorkflow =
  status :: "workflow_status option"
  metadata_name :: "string option"

text \<open>
  The step that \<open>ArgoStep(step, self.metadata.name)\<close> returns: the wrapper of a copy of
  the node document, with the workflow's name; its \<open>startedAt\<close>, \<open>displayName\<close>, \<open>phase\<close>,
  \<open>type\<close> and \<open>id\<close> are the document's.
\<close>

record found_step =
  document :: node
  workflow :: string

text \<open>
  What the constructor calls outside this module: \<open>jsonpickle.loads\<close> on the description
  of a parameter, followed by the lookup \<open>desc["type"]\<close> (the exception of the two, if
  any), and the download of the big parameter \<open>dflow_key\<close> of a node's inputs with the
  decoding of the downloaded file (whether it gets as far as \<open>self.value = content\<close>).
  The temporary directory of the download is taken to be there.
\<close>

record externals =
  loads_description :: "string \<Rightarrow> py_error option"
  download_key :: "node \<Rightarrow> bool"

text \<open>
  An \<open>ArgoParameter\<close>: the \<open>value\<close> and the \<open>description\<close> of the wrapped document, and
  whether it has the attribute \<open>save_as_artifact\<close>, which only \<open>handle_big_parameters\<close>
  sets.
\<close>

record ArgoParameter =
  held_value :: "string option"
  held_description :: "string option"
  save_as_artifact :: bool

text \<open>
  \<^verbatim>\<open>
    def handle_io(self, io):
        if hasattr(io, "parameters") and isinstance(io.parameters, ArgoObjectList):
            io.parameters = {par.name: ArgoParameter(par) for par in io.parameters}
        if hasattr(io, "artifacts") and isinstance(io.artifacts, ArgoObjectList):
            io.artifacts = {art.name: art for art in io.artifacts}
        self.handle_big_parameters(io)
  \<close>
  \<open>par.name\<close> raises \<open>AttributeError\<close> for a document without a name. Of two parameters with
  one name the dict keeps the later one. \<open>artifact_names\<close> gives the keys of the artifact
  dict, a name once for each document that has it.
\<close>

fun parameters_dict ::
  "raw_parameter list \<Rightarrow> (string \<rightharpoonup> ArgoParameter) \<Rightarrow> py_error + (string \<rightharpoonup> ArgoParameter)" where
  "parameters_dict [] d = Inr d"
| "parameters_dict (par # pars) d =
     (case raw_name par of
        None \<Rightarrow> Inl AttributeError
      | Some n \<Rightarrow>
          parameters_dict pars
            (d(n \<mapsto> \<lparr>held_value = raw_value par, held_description = raw_description par,
                       save_as_artifact = False\<rparr>)))"

fun artifact_names :: "raw_artifact list \<Rightarrow> py_error + string list" where
  "artifact_names [] = Inr []"
| "artifact_names (art # arts) =
     (case artifact_name art of
        None \<Rightarrow> Inl AttributeError
      | Some n \<Rightarrow>
          (case artifact_names arts of
             Inl e \<Rightarrow> Inl e
           | Inr ns \<Rightarrow> Inr (n # ns)))"

text \<open>
  \<^verbatim>\<open>
    def handle_big_parameters(self, io):
        if hasattr(io, "artifacts"):
            for name, art in io.artifacts.items():
                if name[:13] == "dflow_bigpar_":
                    if not hasattr(io, "parameters"):
                        io.parameters = {}
                    if name[13:] not in io.parameters:
                        par = art.copy()
                        par["name"] = name[13:]
                        par["save_as_artifact"] = True
                        io.parameters[name[13:]] = ArgoParameter(par)
  \<close>
  The second argument is the attribute \<open>parameters\<close> of \<open>io\<close> (\<open>None\<close>: \<open>io\<close> has no such
  attribute). The copy of an artifact document has neither a value nor a description. At
  the second occurrence of a name in the list its parameter is already there.
\<close>

fun handle_big_parameters ::
  "string list \<Rightarrow> (string \<rightharpoonup> ArgoParameter) option \<Rightarrow> (string \<rightharpoonup> ArgoParameter) option" where
  "handle_big_parameters [] ps = ps"
| "handle_big_parameters (n # ns) ps =
     (if take 13 n = ''dflow_bigpar_'' then
        (let d = (case ps of None \<Rightarrow> Map.empty | Some d \<Rightarrow> d)
         in handle_big_parameters ns
              (Some (if d (drop 13 n) = None
                     then d(drop 13 n \<mapsto> \<lparr>held_value = None, held_description = None,
                                               save_as_artifact = True\<rparr>)
                     else d)))
      else handle_big_parameters ns ps)"

text \<open>The attribute \<open>parameters\<close> of \<open>io\<close> after \<open>handle_io(io)\<close>.\<close>

definition handle_io :: "raw_inputs \<Rightarrow> py_error + (string \<rightharpoonup> ArgoParameter) option" where
  "handle_io io =
     (case (case raw_parameters io of
              None \<Rightarrow> Inr None
            | Some pars \<Rightarrow>
                (case parameters_dict pars Map.empty of
                   Inl e \<Rightarrow> Inl e
                 | Inr d \<Rightarrow> Inr (Some d))) of
        Inl e \<Rightarrow> Inl e
      | Inr ps \<Rightarrow>
          (case raw_artifacts io of
             None \<Rightarrow> Inr ps
           | Some arts \<Rightarrow>
               (case artifact_names arts of
                  Inl e \<Rightarrow> Inl e
                | Inr ns \<Rightarrow> Inr (handle_big_parameters ns ps))))"

text \<open>
  The exception, if any, of reading \<open>.value\<close> of an \<open>ArgoParameter\<close>.
  \<^verbatim>\<open>
    def __getattr__(self, key):
        if ((key == "value" and "value" not in self.data) or ...)
                and hasattr(self, "save_as_artifact"):
            with tempfile.TemporaryDirectory() as tmpdir:
                try:
                    download_artifact(self, path=tmpdir)
                    ...
                        self.value = content
                    ...
                except Exception as e:
                    logger.warning(...)
        if key == "value" and hasattr(self, "description")
                and self.description is not None:
            desc = jsonpickle.loads(self.description)
            if desc["type"] != str(str):
                try:
                    return jsonpickle.loads(super().__getattr__("value"))
                except Exception as e:
                    logger.warning(...)
        return super().__getattr__(key)
  \<close>
  A failed download is only logged, and so is a value that does not decode; a description
  that does not decode, or has no type, raises. At the end a parameter that still has no
  value raises \<open>AttributeError\<close>. \<open>fetched\<close> is the outcome of the download, should it be
  tried.
\<close>

definition value_error ::
  "(string \<Rightarrow> py_error option) \<Rightarrow> bool \<Rightarrow> ArgoParameter \<Rightarrow> py_error option" where
  "value_error loads fetched par =
     (let has_value =
            (case held_value par of None \<Rightarrow> save_as_artifact par \<and> fetched | Some v \<Rightarrow> True)
      in case (case held_description par of None \<Rightarrow> None | Some d \<Rightarrow> loads d) of
           Some e \<Rightarrow> Some e
         | None \<Rightarrow> if has_value then None else Some AttributeError)"

text \<open>
  \<^verbatim>\<open>
    def __init__(self, step, workflow=None):
        super().__init__(deepcopy(step))
        self.workflow = workflow
        self.pod = None
        self.key = None
        if hasattr(self, "inputs"):
            self.handle_io(self.inputs)
            if hasattr(self.inputs, "parameters")
                    and "dflow_key" in self.inputs.parameters
                    and self.inputs.parameters["dflow_key"].value != "":
                self.key = self.inputs.parameters["dflow_key"].value
        if hasattr(self, "outputs"):
            self.handle_io(self.outputs)
  \<close>
  When the first read of the value returns, so does the second.
\<close>

definition key_error :: "externals \<Rightarrow> node \<Rightarrow> py_error option" where
  "key_error ext step =
     (case node_inputs step of
        None \<Rightarrow> None
      | Some io \<Rightarrow>
          (case handle_io io of
             Inl e \<Rightarrow> Some e
           | Inr ps \<Rightarrow>
               (case ps of
                  None \<Rightarrow> None
                | Some d \<Rightarrow>
                    (case d ''dflow_key'' of
                       None \<Rightarrow> None
                     | Some par \<Rightarrow> value_error (loads_description ext) (download_key ext step) par))))"

definition ArgoStep_init :: "externals \<Rightarrow> node \<Rightarrow> string \<Rightarrow> py_error + found_step" where
  "ArgoStep_init ext step w =
     (case key_error ext step of
        Some e \<Rightarrow> Inl e
      | None \<Rightarrow>
          (case node_outputs step of
             None \<Rightarrow> Inr \<lparr>document = step, workflow = w\<rparr>
           | Some io \<Rightarrow>
               (case handle_io io of
                  Inl e \<Rightarrow> Inl e
                | Inr ps \<Rightarrow> Inr \<lparr>document = step, workflow = w\<rparr>)))"

text \<open>
  A filter argument: \<open>None\<close>, one string, or a list of strings.
  \<^verbatim>\<open>
    if name is not None and not isinstance(name, list):
        name = [name]
  \<close>
\<close>

datatype filter_arg = Unset | One string | Several "string list"

definition to_list :: "filter_arg \<Rightarrow> string list option" where
  "to_list a = (case a of Unset \<Rightarrow> None | One s \<Rightarrow> Some [s] | Several ss \<Rightarrow> Some ss)"

text \<open>
  \<^verbatim>\<open>
    def match(n, names):
        for name in names:
            if n == name or n.find(name + "(") == 0:
                return True
        return False
  \<close>
  \<open>n.find(sub) == 0\<close> holds when \<open>n\<close> starts with \<open>sub\<close>.
\<close>

definition starts_with :: "string \<Rightarrow> string \<Rightarrow> bool" where
  "starts_with n sub = (take (length sub) n = sub)"

fun match :: "string \<Rightarrow> string list \<Rightarrow> bool" where
  "match n [] = False"
| "match n (nm # names) = (if n = nm \<or> starts_with n (nm @ ''('') then True else match n names)"

text \<open>
  \<^verbatim>\<open>
    step_key = None
    if "inputs" in step and "parameters" in step["inputs"]:
        for par in step["inputs"]["parameters"]:
            if par["name"] == "dflow_key":
                step_key = par["value"]
  \<close>
\<close>

fun find_key :: "raw_parameter list \<Rightarrow> string option \<Rightarrow> py_error + string option" where
  "find_key [] step_key = Inr step_key"
| "find_key (par # pars) step_key =
     (case raw_name par of
        None \<Rightarrow> Inl KeyError
      | Some n \<Rightarrow>
          if n = ''dflow_key'' then
            (case raw_value par of
               None \<Rightarrow> Inl KeyError
             | Some v \<Rightarrow> find_key pars (Some v))
          else find_key pars step_key)"

definition step_key_of :: "node \<Rightarrow> py_error + string option" where
  "step_key_of step =
     (case node_inputs step of
        None \<Rightarrow> Inr None
      | Some inp \<Rightarrow>
          (case raw_parameters inp of
             None \<Rightarrow> Inr None
           | Some pars \<Rightarrow> find_key pars None))"

text \<open>
  The tests of the loop body, in the source's order; each either raises, or says whether the
  node goes on to the next test (\<open>False\<close>: \<open>continue\<close>).
  \<^verbatim>\<open>
    if step["startedAt"] is None: continue
    if name is not None and not match(step["displayName"], name): continue
    if key is not None: ... if step_key not in key: continue
    if phase is not None and not ("phase" in step and step["phase"] in phase): continue
    if type is not None and not ("type" in step and step["type"] in type): continue
    if id is not None and step["id"] not in id: continue
    step = ArgoStep(step, self.metadata.name)
    step_list.append(step)
  \<close>
\<close>

definition name_ok :: "string list option \<Rightarrow> node \<Rightarrow> py_error + bool" where
  "name_ok names step =
     (case names of
        None \<Rightarrow> Inr True
      | Some ns \<Rightarrow> (case displayName step of None \<Rightarrow> Inl KeyError | Some n \<Rightarrow> Inr (match n ns)))"

definition key_ok :: "string list option \<Rightarrow> node \<Rightarrow> py_error + bool" where
  "key_ok keys step =
     (case keys of
        None \<Rightarrow> Inr True
      | Some ks \<Rightarrow>
          (case step_key_of step of
             Inl e \<Rightarrow> Inl e
           | Inr step_key \<Rightarrow> Inr (case step_key of None \<Rightarrow> False | Some k \<Rightarrow> k \<in> set ks)))"

definition phase_ok :: "string list option \<Rightarrow> node \<Rightarrow> bool" where
  "phase_ok phases step =
     (case phases of
        None \<Rightarrow> True
      | Some ps \<Rightarrow> (case nodePhase step of None \<Rightarrow> False | Some p \<Rightarrow> p \<in> set ps))"

definition type_ok :: "string list option \<Rightarrow> node \<Rightarrow> bool" where
  "type_ok types step =
     (case types of
        None \<Rightarrow> True
      | Some ts \<Rightarrow> (case nodeType step of None \<Rightarrow> False | Some t \<Rightarrow> t \<in> set ts))"

definition id_ok :: "string list option \<Rightarrow> node \<Rightarrow> py_error + bool" where
  "id_ok ids step =
     (case ids of
        None \<Rightarrow> Inr True
      | Some is \<Rightarrow> (case nodeId step of None \<Rightarrow> Inl KeyError | Some i \<Rightarrow> Inr (i \<in> set is)))"

definition and_then :: "py_error + bool \<Rightarrow> py_error + bool \<Rightarrow> py_error + bool" where
  "and_then a b = (case a of Inl e \<Rightarrow> Inl e | Inr ok \<Rightarrow> if ok then b else Inr False)"

definition keep ::
  "string list option \<Rightarrow> string list option \<Rightarrow> string list option \<Rightarrow> string list option
     \<Rightarrow> string list option \<Rightarrow> node \<Rightarrow> py_error + bool" where
  "keep names keys phases ids types step =
     (case startedAt step of
        NoField \<Rightarrow> Inl KeyError
      | NoneValue \<Rightarrow> Inr False
      | Time t \<Rightarrow>
          and_then (name_ok names step)
         (and_then (key_ok keys step)
         (and_then (Inr (phase_ok phases step))
         (and_then (Inr (type_ok types step))
                   (id_ok ids step)))))"

fun collect ::
  "externals \<Rightarrow> string list option \<Rightarrow> string list option \<Rightarrow> string list option
     \<Rightarrow> string list option \<Rightarrow> string list option \<Rightarrow> string option \<Rightarrow> node list
     \<Rightarrow> py_error + found_step list" where
  "collect ext names keys phases ids types wf_name [] = Inr []"
| "collect ext names keys phases ids types wf_name (step # rest) =
     (case keep names keys phases ids types step of
        Inl e \<Rightarrow> Inl e
      | Inr ok \<Rightarrow>
          if \<not> ok then collect ext names keys phases ids types wf_name rest
          else
            (case wf_name of
               None \<Rightarrow> Inl AttributeError
             | Some w \<Rightarrow>
                 (case ArgoStep_init ext step w of
                    Inl e \<Rightarrow> Inl e
                  | Inr x \<Rightarrow>
                      (case collect ext names keys phases ids types wf_name rest of
                         Inl e \<Rightarrow> Inl e
                       | Inr step_list \<Rightarrow> Inr (x # step_list)))))"

text \<open>The sort key \<open>x["startedAt"]\<close> of a collected step; strings compare lexicographically.\<close>

definition started :: "found_step \<Rightarrow> string" where
  "started x = (case startedAt (document x) of Time t \<Rightarrow> t | _ \<Rightarrow> [])"

text \<open>
  \<^verbatim>\<open>
    step_list = []
    if hasattr(self.status, "nodes"):
        for step in self.status.nodes.values(): ...
    step_list.sort(key=lambda x: x["startedAt"])
    return step_list
  \<close>
\<close>

definition get_step ::
  "externals \<Rightarrow> ArgoWorkflow \<Rightarrow> filter_arg \<Rightarrow> filter_arg \<Rightarrow> filter_arg \<Rightarrow> filter_arg \<Rightarrow> filter_arg
     \<Rightarrow> py_error + found_step list" where
  "get_step ext self name_arg key_arg phase_arg id_arg type_arg =
     (case status self of
        None \<Rightarrow> Inl AttributeError
      | Some st \<Rightarrow>
          (case nodes st of
             None \<Rightarrow> Inr []
           | Some ns \<Rightarrow>
               (case collect ext (to_list name_arg) (to_list key_arg) (to_list phase_arg)
                       (to_list id_arg) (to_list type_arg) (metadata_name self) (map snd ns) of
                  Inl e \<Rightarrow> Inl e
                | Inr step_list \<Rightarrow> Inr (sort_key started step_list))))"


section \<open>Live status objects (argo_objects.py): the reflective tree\<close>

text \<open>
  The wrappers are objects in a store, so that two references to one wrapper see each
  other's writes. A value held by a wrapper is a plain value or a reference to a wrapper.
  A cell of the store is an \<open>ArgoObjectDict\<close> (its dictionary \<open>data\<close>, in insertion order),
  an \<open>ArgoObjectList\<close> (its list \<open>data\<close>), or an \<open>ArgoObjectDict\<close> whose \<open>data\<close> attribute
  was rebound to some value by \<open>obj.data = v\<close>.
\<close>

datatype pyvalue = Plain json | Obj ref

datatype cell =
    DictCell "(string \<times> pyvalue) list"
  | ListCell "pyvalue list"
  | Rebound pyvalue

type_synonym heap = "cell list"

text \<open>
  Dictionary assignment \<open>d[k] = v\<close>: an existing key keeps its place, a new key goes last.
\<close>

fun dict_set :: "string \<Rightarrow> 'v \<Rightarrow> (string \<times> 'v) list \<Rightarrow> (string \<times> 'v) list" where
  "dict_set k v [] = [(k, v)]"
| "dict_set k v ((k', v') # d) = (if k = k' then (k, v) # d else (k', v') # dict_set k v d)"

text \<open>\<open>self.data[key] = v\<close> on the wrapper \<open>r\<close>, and \<open>self.data[i] = v\<close> on a list wrapper.\<close>

definition set_entry :: "heap \<Rightarrow> ref \<Rightarrow> string \<Rightarrow> pyvalue \<Rightarrow> heap" where
  "set_entry h r k v =
     (case h ! r of
        DictCell d \<Rightarrow> h[r := DictCell (dict_set k v d)]
      | _ \<Rightarrow> h)"

definition set_index :: "heap \<Rightarrow> ref \<Rightarrow> nat \<Rightarrow> pyvalue \<Rightarrow> heap" where
  "set_index h r i v =
     (case h ! r of
        ListCell l \<Rightarrow> h[r := ListCell (l[i := v])]
      | _ \<Rightarrow> h)"

text \<open>
  The constructors. The wrapper is allocated with the entries of the given mapping
  (\<open>UserDict.__init__\<close> copies them), then every entry that is a \<open>dict\<close> or a \<open>list\<close> is
  replaced by a new wrapper of it, recursively:
  \<^verbatim>\<open>
    def __init__(self, d):
        super().__init__(d)
        for key, value in self.items():
            if isinstance(value, dict):
                self.data[key] = ArgoObjectDict(value)
            elif isinstance(value, list):
                self.data[key] = ArgoObjectList(value)
  \<close>
  and likewise for \<open>ArgoObjectList\<close> with \<open>enumerate(self.data)\<close>. The given mapping is a
  parsed document, a tree.
\<close>

fun ArgoObjectDict_init :: "(string \<times> json) list \<Rightarrow> heap \<Rightarrow> ref \<times> heap"
  and ArgoObjectList_init :: "json list \<Rightarrow> heap \<Rightarrow> ref \<times> heap"
  and dict_loop :: "ref \<Rightarrow> (string \<times> json) list \<Rightarrow> heap \<Rightarrow> heap"
  and list_loop :: "ref \<Rightarrow> nat \<Rightarrow> json list \<Rightarrow> heap \<Rightarrow> heap"
where
  "ArgoObjectDict_init d h =
     (length h, dict_loop (length h) d (h @ [DictCell (map (\<lambda>(k, v). (k, Plain v)) d)]))"
| "ArgoObjectList_init li h =
     (length h, list_loop (length h) 0 li (h @ [ListCell (map Plain li)]))"
| "dict_loop r [] h = h"
| "dict_loop r ((k, v) # rest) h =
     (case v of
        JDict d \<Rightarrow> (case ArgoObjectDict_init d h of (c, h') \<Rightarrow> dict_loop r rest (set_entry h' r k (Obj c)))
      | JList li \<Rightarrow> (case ArgoObjectList_init li h of (c, h') \<Rightarrow> dict_loop r rest (set_entry h' r k (Obj c)))
      | _ \<Rightarrow> dict_loop r rest h)"
| "list_loop r i [] h = h"
| "list_loop r i (v # rest) h =
     (case v of
        JDict d \<Rightarrow> (case ArgoObjectDict_init d h of (c, h') \<Rightarrow> list_loop r (Suc i) rest (set_index h' r i (Obj c)))
      | JList li \<Rightarrow> (case ArgoObjectList_init li h of (c, h') \<Rightarrow> list_loop r (Suc i) rest (set_index h' r i (Obj c)))
      | _ \<Rightarrow> list_loop r (Suc i) rest h)"



text \<open>
  \<^verbatim>\<open>
    def __getattr__(self, key):
        if key == "data":
            return super().__getattr__(key)
        if key in self.data:
            return self.data[key]
        else:
            raise AttributeError(...)

    def __setattr__(self, key, value):
        if key == "data":
            return super().__setattr__(key, value)
        self.data[key] = value
  \<close>
  Python calls \<open>__getattr__\<close> only when the object has no such attribute of its own; the
  base class has no \<open>__getattr__\<close>, so the first branch raises \<open>AttributeError\<close>. A list
  wrapper has no entries by name. On a wrapper whose \<open>data\<close> was rebound, reading an entry is
  taken to raise and writing one to change nothing.
\<close>

definition getattr :: "heap \<Rightarrow> ref \<Rightarrow> string \<Rightarrow> py_error + pyvalue" where
  "getattr h r k =
     (if k = ''data'' then Inl AttributeError
      else
        case h ! r of
          DictCell d \<Rightarrow> (case map_of d k of Some v \<Rightarrow> Inr v | None \<Rightarrow> Inl AttributeError)
        | ListCell l \<Rightarrow> Inl AttributeError
        | Rebound x \<Rightarrow> Inl TypeError)"

definition setattr :: "heap \<Rightarrow> ref \<Rightarrow> string \<Rightarrow> pyvalue \<Rightarrow> heap" where
  "setattr h r k v = (if k = ''data'' then h[r := Rebound v] else set_entry h r k v)"

declare ArgoObjectDict_init.simps [simp del] ArgoObjectList_init.simps [simp del]

text \<open>
  Auxiliary predicates for the store: the kind of a cell; a store extended with new cells
  where only cell \<open>r\<close> of the old ones may have changed; a store extended by an allocation
  at \<open>c\<close>.
\<close>

fun is_dict :: "cell \<Rightarrow> bool" where
  "is_dict (DictCell d) = True"
| "is_dict (ListCell l) = False"
| "is_dict (Rebound x) = False"

definition extends_except :: "ref \<Rightarrow> heap \<Rightarrow> heap \<Rightarrow> bool" where
  "extends_except r h h' \<longleftrightarrow>
     length h \<le> length h' \<and> (\<forall>i < length h. i \<noteq> r \<longrightarrow> h' ! i = h ! i)
     \<and> is_dict (h' ! r) = is_dict (h ! r)"

definition allocates :: "bool \<Rightarrow> heap \<Rightarrow> ref \<Rightarrow> heap \<Rightarrow> bool" where
  "allocates dict h c h' \<longleftrightarrow>
     c = length h \<and> length h < length h' \<and> (\<forall>i < length h. h' ! i = h ! i)
     \<and> is_dict (h' ! c) = dict"

section \<open>The local scheduler (dag.py)\<close>

text \<open>
  Task objects live in a store and are compared by identity: a reference names a task.
  Of a task the scheduler reads its dependencies (references to tasks) and
  \<open>continue_on_failed\<close>, and writes its \<open>phase\<close> and \<open>outputs\<close>.
\<close>

record Task =
  dependencies :: "ref list"
  phase :: string
  continue_on_failed :: bool
  task_outputs :: json

text \<open>
  The effects of a run are recorded in order: \<open>Submit t\<close> is \<open>pool.submit\<close> for the task
  \<open>t\<close>, \<open>Finish t\<close> is \<open>self.finished.append(t)\<close>. The result of a future is the
  worker's returned copy of the task (its outputs) or an exception.
\<close>

datatype event = Submit ref | Finish ref

datatype outcome = Returned json | Raised

text \<open>
  The DAG while it runs: the task objects, the task list, the lists \<open>waiting\<close>, \<open>running\<close>
  and \<open>finished\<close>, the dictionary \<open>futures\<close> (future to index in the task list, in
  insertion order), the tasks submitted to the pool so far (a future is numbered by its
  position there), and the trace of effects.
\<close>

record DAG =
  objs :: "ref \<Rightarrow> Task"
  tasks :: "ref list"
  waiting :: "ref list"
  running :: "ref list"
  finished :: "ref list"
  futures :: "(nat \<times> nat) list"
  pool :: "ref list"
  trace :: "event list"

text \<open>
  The environment decides which pending future completes first and how: in a given state,
  the position of that future among the pending ones (taken modulo their number, so that
  every function is a possible environment) and its result.
\<close>

type_synonym world = "DAG \<Rightarrow> nat \<times> outcome"

text \<open>\<open>self.tasks.index(task)\<close>: the first position of \<open>task\<close>; \<open>None\<close> when it raises.\<close>

fun index_of :: "'a list \<Rightarrow> 'a \<Rightarrow> nat option" where
  "index_of [] x = None"
| "index_of (y # ys) x = (if y = x then Some 0 else map_option Suc (index_of ys x))"

text \<open>
  \<^verbatim>\<open>
    ready = True
    for dep in task.dependencies:
        if dep not in self.finished:
            ready = False
            break
  \<close>
\<close>

definition ready :: "DAG \<Rightarrow> ref \<Rightarrow> bool" where
  "ready s task = list_all (\<lambda>dep. dep \<in> set (finished s)) (dependencies (objs s task))"

definition set_phase :: "DAG \<Rightarrow> ref \<Rightarrow> string \<Rightarrow> DAG" where
  "set_phase s t p = s\<lparr>objs := (objs s)(t := (objs s t)\<lparr>phase := p\<rparr>)\<rparr>"

definition set_outputs :: "DAG \<Rightarrow> ref \<Rightarrow> json \<Rightarrow> DAG" where
  "set_outputs s t outs = s\<lparr>objs := (objs s)(t := (objs s t)\<lparr>task_outputs := outs\<rparr>)\<rparr>"

text \<open>
  The body of \<open>if ready:\<close>, once the index \<open>i\<close> is found:
  \<^verbatim>\<open>
    task.phase = "Pending"
    i = self.tasks.index(task)
    future = pool.submit(task.run_with_config, self, self.context, config, s3_config)
    futures[future] = i
    self.waiting.remove(task)
    self.running.append(task)
  \<close>
\<close>

definition admit :: "DAG \<Rightarrow> ref \<Rightarrow> nat \<Rightarrow> DAG" where
  "admit s task i =
     (set_phase s task ''Pending'')
       \<lparr>waiting := remove1 task (waiting s),
        running := running s @ [task],
        futures := futures s @ [(length (pool s), i)],
        pool := pool s @ [task],
        trace := trace s @ [Submit task]\<rparr>"

text \<open>
  \<open>for task in self.waiting:\<close> iterates by position over the list as it is at each step,
  while the body removes from it: after a removal at position \<open>n\<close> the loop goes on at
  position \<open>n + 1\<close> of the shortened list. \<open>resolve_from n\<close> is the loop from position \<open>n\<close>.
\<close>

function resolve_from :: "nat \<Rightarrow> DAG \<Rightarrow> py_error option \<times> DAG" where
  "resolve_from n s =
     (if n < length (waiting s) then
        (let task = waiting s ! n in
         if ready s task then
           (case index_of (tasks s) task of
              None \<Rightarrow> (Some ValueError, set_phase s task ''Pending'')
            | Some i \<Rightarrow> resolve_from (Suc n) (admit s task i))
         else resolve_from (Suc n) s)
      else (None, s))"
  by pat_completeness auto
termination
proof (relation "measure (\<lambda>(n, s). length (waiting s) - n)")
  show "wf (measure (\<lambda>(n, s). length (waiting s) - n))" by simp
next
  fix n and s :: DAG and task i
  assume "n < length (waiting s)" and "task = waiting s ! n"
  then have "task \<in> set (waiting s)" by simp
  then have "length (waiting (admit s task i)) = length (waiting s) - 1"
    by (simp add: admit_def set_phase_def length_remove1)
  with \<open>n < length (waiting s)\<close>
  show "((Suc n, admit s task i), (n, s)) \<in> measure (\<lambda>(n, s). length (waiting s) - n)"
    by simp
next
  fix n and s :: DAG and task :: ref
  assume "n < length (waiting s)"
  then show "((Suc n, s), (n, s)) \<in> measure (\<lambda>(n, s). length (waiting s) - n)"
    by simp
qed

declare resolve_from.simps [simp del]

definition resolve :: "DAG \<Rightarrow> py_error option \<times> DAG" where
  "resolve s = resolve_from 0 s"

text \<open>
  \<^verbatim>\<open>
    self.running.remove(self.tasks[j])
    self.finished.append(self.tasks[j])
    self.resolve(pool, futures)
  \<close>
  \<open>list.remove\<close> raises \<open>ValueError\<close> when the element is absent.
\<close>

definition mark_finished :: "DAG \<Rightarrow> ref \<Rightarrow> DAG" where
  "mark_finished s t =
     s\<lparr>running := remove1 t (running s),
       finished := finished s @ [t],
       trace := trace s @ [Finish t]\<rparr>"

definition finish :: "DAG \<Rightarrow> ref \<Rightarrow> py_error option \<times> DAG" where
  "finish s t =
     (if t \<notin> set (running s) then (Some ValueError, s)
      else resolve (mark_finished s t))"

text \<open>
  One pass of the loop body. \<open>next(as_completed(futures))\<close> raises \<open>StopIteration\<close> when
  there is no future; \<open>futures.pop(future)\<close> removes the future and gives the index \<open>j\<close>.
  \<^verbatim>\<open>
    future = next(concurrent.futures.as_completed(futures))
    j = futures.pop(future)
    try:
        t = future.result()
    except Exception:
        traceback.print_exc()
        self.tasks[j].phase = "Failed"
        if not self.tasks[j].continue_on_failed:
            raise RuntimeError("Task %s failed" % self.tasks[j])
    else:
        self.tasks[j].outputs = deepcopy(t.outputs)
    self.running.remove(self.tasks[j])
    self.finished.append(self.tasks[j])
    self.resolve(pool, futures)
  \<close>
  A call returns the exception raised, if any, with the state the DAG object is left in.
\<close>

definition next_future :: "world \<Rightarrow> DAG \<Rightarrow> nat" where
  "next_future w s = fst (w s) mod length (futures s)"

definition pop_future :: "DAG \<Rightarrow> nat \<Rightarrow> DAG" where
  "pop_future s n = s\<lparr>futures := take n (futures s) @ drop (Suc n) (futures s)\<rparr>"

definition complete :: "world \<Rightarrow> DAG \<Rightarrow> py_error option \<times> DAG" where
  "complete w s =
     (if futures s = [] then (Some StopIteration, s)
      else
        let j = snd (futures s ! next_future w s);
            s1 = pop_future s (next_future w s)
        in if \<not> j < length (tasks s1) then (Some IndexError, s1)
           else
             let t = tasks s1 ! j in
             case snd (w s) of
               Raised \<Rightarrow>
                 (let s2 = set_phase s1 t ''Failed''
                  in if \<not> continue_on_failed (objs s2 t) then (Some RuntimeError, s2)
                     else finish s2 t)
             | Returned outs \<Rightarrow> finish (set_outputs s1 t outs) t)"

text \<open>The loop of \<open>run\<close> ends: each pass takes one task out of \<open>waiting\<close> and \<open>running\<close>.\<close>

lemma resolve_from_size:
  "resolve_from n s = (e, s') \<Longrightarrow>
   length (waiting s') + length (running s') = length (waiting s) + length (running s)"
proof (induction n s arbitrary: e s' rule: resolve_from.induct)
  case (1 n s)
  show ?case
  proof (cases "n < length (waiting s)")
    case False
    with "1.prems" show ?thesis by (simp add: resolve_from.simps)
  next
    case True
    let ?task = "waiting s ! n"
    from True have mem: "?task \<in> set (waiting s)" by simp
    show ?thesis
    proof (cases "ready s ?task")
      case False
      with True "1.prems" have "resolve_from (Suc n) s = (e, s')"
        by (simp add: resolve_from.simps [of n s])
      from "1.IH"(2) [OF True refl False this] show ?thesis .
    next
      case r: True
      show ?thesis
      proof (cases "index_of (tasks s) ?task")
        case None
        with True r "1.prems" show ?thesis
          by (auto simp: resolve_from.simps [of n s] set_phase_def Let_def)
      next
        case (Some i)
        with True r "1.prems" have "resolve_from (Suc n) (admit s ?task i) = (e, s')"
          by (simp add: resolve_from.simps [of n s])
        from "1.IH"(1) [OF True refl r Some this]
        have "length (waiting s') + length (running s')
            = length (waiting (admit s ?task i)) + length (running (admit s ?task i))" .
        also have "\<dots> = length (waiting s) + length (running s)"
          using mem True by (simp add: admit_def set_phase_def length_remove1)
        finally show ?thesis .
      qed
    qed
  qed
qed

lemma complete_decreases:
  assumes "complete w s = (None, s')" and "running s \<noteq> []"
  shows "length (waiting s') + length (running s') < length (waiting s) + length (running s)"
proof -
  have fin: "length (waiting s') + length (running s') < length (waiting u) + length (running u)"
    if "finish u t = (None, s')" for u t
  proof -
    from that have m: "t \<in> set (running u)" by (auto simp: finish_def split: if_splits)
    with that have "resolve_from 0 (mark_finished u t) = (None, s')"
      by (simp add: finish_def resolve_def)
    moreover from m have "0 < length (running u)" by (rule length_pos_if_in_set)
    ultimately show ?thesis
      using resolve_from_size [of 0 "mark_finished u t" None s'] m
      by (simp add: length_remove1 mark_finished_def)
  qed
  from assms(1) show ?thesis
    by (auto simp: complete_def Let_def set_phase_def set_outputs_def pop_future_def
        split: if_splits outcome.splits dest!: fin)
qed

text \<open>
  \<^verbatim>\<open>
    while len(self.running) > 0:
        ...
    pool.shutdown()
    assert len(self.finished) == len(self.tasks), "cyclic graph"
  \<close>
\<close>

function run_loop :: "world \<Rightarrow> DAG \<Rightarrow> py_error option \<times> DAG" where
  "run_loop w s =
     (if running s \<noteq> [] then
        (case complete w s of
           (Some e, s') \<Rightarrow> (Some e, s')
         | (None, s') \<Rightarrow> run_loop w s')
      else if length (finished s) = length (tasks s) then (None, s)
      else (Some AssertionError, s))"
  by pat_completeness auto
termination
proof (relation "measure (\<lambda>(w, s). length (waiting s) + length (running s))", goal_cases)
  case 1
  show ?case by simp
next
  case (2 w s x s')
  then have "complete w s = (None, s')" by simp
  from complete_decreases [OF this] 2 show ?case by simp
qed

declare run_loop.simps [simp del]

text \<open>
  \<^verbatim>\<open>
    futures = {}
    self.waiting = [task for task in self]
    self.running = []
    self.finished = []
    self.resolve(pool, futures)
  \<close>
\<close>

definition run_start :: "DAG \<Rightarrow> DAG" where
  "run_start s = s\<lparr>waiting := tasks s, running := [], finished := [], futures := [],
                     pool := [], trace := []\<rparr>"

definition run :: "world \<Rightarrow> DAG \<Rightarrow> py_error option \<times> DAG" where
  "run w s =
     (case resolve (run_start s) of
        (Some e, s') \<Rightarrow> (Some e, s')
      | (None, s') \<Rightarrow> run_loop w s')"

text \<open>
  Statements about runs. A trace starts every task after its dependencies when each
  \<open>Submit t\<close> comes after a \<open>Finish d\<close> for every dependency \<open>d\<close> of \<open>t\<close>. The invariants of
  the scheduler: the trace agrees with \<open>finished\<close>; the three lists together hold the
  tasks of the task list, each as often as it is listed; a task that left \<open>waiting\<close> has phase \<open>Pending\<close> or \<open>Failed\<close>; the run changes
  neither the task list nor the dependencies and \<open>continue_on_failed\<close> of the tasks; every
  pending future stands for one running task; when nothing runs, no waiting task is ready.
\<close>

definition started_after_deps :: "(ref \<Rightarrow> ref list) \<Rightarrow> event list \<Rightarrow> bool" where
  "started_after_deps deps tr \<longleftrightarrow>
     (\<forall>i < length tr. \<forall>t. tr ! i = Submit t \<longrightarrow> (\<forall>d \<in> set (deps t). Finish d \<in> set (take i tr)))"

definition trace_inv :: "(ref \<Rightarrow> ref list) \<Rightarrow> DAG \<Rightarrow> bool" where
  "trace_inv deps s \<longleftrightarrow>
     (\<forall>t. dependencies (objs s t) = deps t)
     \<and> (\<forall>d. d \<in> set (finished s) \<longleftrightarrow> Finish d \<in> set (trace s))
     \<and> started_after_deps deps (trace s)"

definition sets_inv :: "DAG \<Rightarrow> bool" where
  "sets_inv s \<longleftrightarrow> mset (waiting s) + mset (running s) + mset (finished s) = mset (tasks s)"


definition static :: "DAG \<Rightarrow> DAG \<Rightarrow> bool" where
  "static dag s \<longleftrightarrow>
     tasks s = tasks dag
     \<and> (\<forall>t. dependencies (objs s t) = dependencies (objs dag t)
            \<and> continue_on_failed (objs s t) = continue_on_failed (objs dag t))"

definition futures_inv :: "DAG \<Rightarrow> bool" where
  "futures_inv s \<longleftrightarrow>
     (\<forall>fj \<in> set (futures s). snd fj < length (tasks s))
     \<and> mset (map (\<lambda>fj. tasks s ! snd fj) (futures s)) = mset (running s)"


text \<open>
  The states at the head of the loop of \<open>run\<close>: the state after the first \<open>resolve\<close>, and
  the state after each pass of the loop body that did not raise.
\<close>

inductive loop_head :: "world \<Rightarrow> DAG \<Rightarrow> DAG \<Rightarrow> bool" for w dag where
  start: "resolve (run_start dag) = (None, s) \<Longrightarrow> loop_head w dag s"
| pass: "loop_head w dag s \<Longrightarrow> running s \<noteq> [] \<Longrightarrow> complete w s = (None, s') \<Longrightarrow> loop_head w dag s'"


section \<open>Concrete inputs\<close>

text \<open>Settings outside debug mode, with the \<open>s3\<close> repository.\<close>

definition example_settings :: settings where
  "example_settings = \<lparr>mode = ''default'', repo_type = ''s3''\<rparr>"

text \<open>An uploaded object whose key does not end in \<open>.tgz\<close>.\<close>

definition example_s3 :: s3_object where
  "example_s3 =
     \<lparr>isS3Artifact = True, key = Some ''upload/out.txt'', local_path = None,
      to_dict = JDict [(''key'', JStr ''upload/out.txt'')],
      oss_to_dict = JDict [(''key'', JStr ''upload/out.txt'')]\<rparr>"

text \<open>
  A step with one output artifact \<open>out\<close>, whose document has a \<open>name\<close> and the fields of
  \<open>extra\<close>, and the slice manifest parameter of \<open>out\<close>.
\<close>

definition example_step :: "artifact \<Rightarrow> ArgoStep" where
  "example_step extra =
     \<lparr>outputs = Some
        \<lparr>parameters = Some (Map.empty(''dflow_out_path_list'' \<mapsto> \<lparr>par_value = Some ''manifest''\<rparr>)),
         artifacts = Some (Map.empty(''out'' \<mapsto> extra(''name'' \<mapsto> JStr ''out'')))\<rparr>\<rparr>"

text \<open>A manifest with the declared orders 2, 0, 1, and its decoder.\<close>

definition example_manifest :: "slice_item list" where
  "example_manifest =
     [\<lparr>dflow_list_item = ''c'', order = 2\<rparr>,
      \<lparr>dflow_list_item = ''a'', order = 0\<rparr>,
      \<lparr>dflow_list_item = ''b'', order = 1\<rparr>]"

definition example_loads :: "slice_item list \<Rightarrow> string \<Rightarrow> py_error + slice_item list" where
  "example_loads manifest v = (if v = ''manifest'' then Inr manifest else Inl ValueError)"

text \<open>An uploader that accepts every collection.\<close>

definition example_upload :: "string option list \<Rightarrow> py_error + s3_object" where
  "example_upload new_path = Inr example_s3"

text \<open>
  A workflow with four nodes: two named \<open>a\<close> (one of them never started), a fan-out
  sibling \<open>a(1)\<close> and a node \<open>b\<close>. Each node has its id as the value of its input parameter
  \<open>dflow_key\<close>, an input artifact and no outputs. No description decodes, and no
  download succeeds.
\<close>

definition example_externals :: externals where
  "example_externals =
     \<lparr>loads_description = (\<lambda>d. Some ValueError), download_key = (\<lambda>step. False)\<rparr>"

definition example_node :: "timestamp \<Rightarrow> string \<Rightarrow> string \<Rightarrow> node" where
  "example_node t n i =
     \<lparr>startedAt = t, displayName = Some n,
      node_inputs = Some
        \<lparr>raw_parameters = Some
           [\<lparr>raw_name = Some ''dflow_key'', raw_value = Some i, raw_description = None\<rparr>],
         raw_artifacts = Some [\<lparr>artifact_name = Some ''dflow_bigpar_x''\<rparr>]\<rparr>,
      node_outputs = None, nodePhase = Some ''Succeeded'',
      nodeType = Some ''Pod'', nodeId = Some i\<rparr>"


text \<open>
  A DAG of the tasks \<open>0, 1, ...\<close>, given by the dependencies and \<open>continue_on_failed\<close> of
  each, and four environments: the oldest pending future completes first and succeeds;
  the youngest does; the first completion of the run raises; the oldest pending future
  completes first and raises.
\<close>

definition example_dag :: "(ref list \<times> bool) list \<Rightarrow> DAG" where
  "example_dag specs =
     \<lparr>objs = (\<lambda>t. \<lparr>dependencies = (if t < length specs then fst (specs ! t) else []),
                     phase = ''Waiting'',
                     continue_on_failed = (if t < length specs then snd (specs ! t) else False),
                     task_outputs = JNull\<rparr>),
      tasks = [0 ..< length specs],
      waiting = [], running = [], finished = [], futures = [], pool = [], trace = []\<rparr>"

definition first_done :: world where
  "first_done s = (0, Returned JNull)"

definition last_done :: world where
  "last_done s = (length (futures s) - 1, Returned JNull)"

definition first_fails :: world where
  "first_fails s = (0, if finished s = [] then Raised else Returned JNull)"

definition always_fails :: world where
  "always_fails s = (0, Raised)"

text \<open>
  A task that tolerates failure, and two tasks that do not and depend on it alone.
\<close>

definition fan_out :: DAG where
  "fan_out = example_dag [([], True), ([0], False), ([0], False)]"
section \<open>Auto-naming\<close>

lemma AutonamedDict_setitem_eq:
  "AutonamedDict_setitem d K v h =
     (d(K \<mapsto> length h), h @ [(h ! v)\<lparr>name := Some K\<rparr>])"
  by (simp add: AutonamedDict_setitem_def deepcopy_def set_name_def)

text \<open>
  Claim C4. After the assignment \<open>d[K] = p\<close> the dictionary has an entry under \<open>K\<close>, an
  allocated object whose \<open>name\<close> is \<open>K\<close>, whatever \<open>p.name\<close> was before.
\<close>

theorem autonamed_setitem_name:
  "case AutonamedDict_setitem d K p h of
     (d', h') \<Rightarrow>
       (case d' K of
          Some r \<Rightarrow> r < length h' \<and> name (h' ! r) = Some K
        | None \<Rightarrow> False)"
  by (simp add: AutonamedDict_setitem_eq)

text \<open>
  Claim C10. The stored entry is a deep copy: for an allocated object \<open>p\<close>, the entry
  stored under \<open>K\<close> is a reference different from \<open>p\<close>, it carries the attributes that \<open>p\<close>
  had, the assignment leaves the object \<open>p\<close> itself (its \<open>name\<close> included) as it was, and no
  later mutation of \<open>p\<close> changes the stored entry.
\<close>

theorem autonamed_setitem_deepcopy:
  assumes "p < length h"
    and "AutonamedDict_setitem d K p h = (d', h')"
  shows "\<exists>r. d' K = Some r \<and> r \<noteq> p \<and> h' ! p = h ! p
           \<and> attrs (h' ! r) = attrs (h ! p)
           \<and> (\<forall>obj. mutate h' p obj ! r = h' ! r)"
  using assms by (auto simp: AutonamedDict_setitem_eq mutate_def nth_append)

theorem autonamed_setitem_deepcopy_witness:
  "\<exists>d' h' r. AutonamedDict_setitem Map.empty ''x'' 0 [\<lparr>name = Some ''old'', attrs = (1::int)\<rparr>] = (d', h')
      \<and> d' ''x'' = Some r \<and> r \<noteq> 0
      \<and> h' ! 0 = \<lparr>name = Some ''old'', attrs = 1\<rparr>
      \<and> name (h' ! r) = Some ''x''
      \<and> mutate h' 0 \<lparr>name = Some ''changed'', attrs = 2\<rparr> ! r = h' ! r"
  using autonamed_setitem_deepcopy
    [of 0 "[\<lparr>name = Some ''old'', attrs = (1::int)\<rparr>]" Map.empty "''x''"
        "Map.empty(''x'' \<mapsto> 1)"
        "[\<lparr>name = Some ''old'', attrs = 1\<rparr>, \<lparr>name = Some ''x'', attrs = 1\<rparr>]"]
  by (simp add: AutonamedDict_setitem_eq)

section \<open>Pod names\<close>

lemma fnva_step: "uint ((h XOR ucast (b::byte)) * (0x01000193 :: 32 word))
   = ((uint h XOR uint b) * 0x01000193) mod 2 ^ 32"
proof -
  have "uint (ucast b :: 32 word) = uint b"
    by (rule uint_up_ucast) (simp add: is_up)
  then show ?thesis
    by (simp add: uint_word_ariths uint_xor)
qed

lemma fnva_fnv1a:
  "fnva bs (uint (h :: 32 word)) FNV_32_PRIME (2 ^ 32)
     = Inr (uint (fold (\<lambda>b h. (h XOR ucast b) * 0x01000193) bs h))"
proof (induction bs arbitrary: h)
  case Nil
  show ?case by simp
next
  case (Cons b bs)
  have "fnva (b # bs) (uint h) FNV_32_PRIME (2 ^ 32)
      = fnva bs (uint ((h XOR ucast b) * (0x01000193 :: 32 word))) FNV_32_PRIME (2 ^ 32)"
    by (simp add: fnva_step) (simp add: FNV_32_PRIME_def)
  then show ?case using Cons.IH by simp
qed

lemma fnva_32: "fnva bs FNV1_32_INIT FNV_32_PRIME (2 ^ 32) = Inr (uint (fnv1a_32 bs))"
proof -
  have "FNV1_32_INIT = uint (0x811c9dc5 :: 32 word)"
    by (simp add: FNV1_32_INIT_def)
  then show ?thesis
    using fnva_fnv1a [of bs "0x811c9dc5"] by (simp add: fnv1a_32_def)
qed

lemma fnva_32_numeral:
  "fnva bs FNV1_32_INIT FNV_32_PRIME 4294967296 = Inr (uint (fnv1a_32 bs))"
  using fnva_32 [of bs] by simp

lemma length_str_nat: "n < 10 ^ Suc k \<Longrightarrow> length (str_nat n) \<le> Suc k"
proof (induction k arbitrary: n)
  case 0
  then show ?case by (simp add: str_nat.simps)
next
  case (Suc k)
  show ?case
  proof (cases "n < 10")
    case True
    then show ?thesis by (simp add: str_nat.simps)
  next
    case False
    from Suc.prems have "n div 10 < 10 ^ Suc k" by simp
    then have "length (str_nat (n div 10)) \<le> Suc k" by (rule Suc.IH)
    with False show ?thesis by (subst str_nat.simps) simp
  qed
qed

lemma length_str_int_word: "length (str_int (uint (w :: 32 word))) \<le> 10"
proof -
  have "unat w < 2 ^ 32" using unsigned_less [of w, where ?'a = nat] by simp
  then have "nat (uint w) < 10 ^ Suc 9" by simp
  then have "length (str_nat (nat (uint w))) \<le> Suc 9" by (rule length_str_nat)
  then show ?thesis by (simp add: str_int_def)
qed

lemma length_pod_name:
  "length (take 242 (p :: pystr) @ str ''-'' @ str_int (uint (w :: 32 word))) \<le> 253"
  using length_str_int_word [of w] by (simp add: str_def)

text \<open>
  Claim C6, as amended. \<open>get_pod_name\<close> returns \<open>wf_name\<close> when \<open>wf_name = node_name\<close>.
  Otherwise, for a node name that UTF-8 encodes to \<open>data\<close>, it returns
  \<open>wf_name-template_name\<close> cut to 242 code points (253 less the hash width 10, less one for
  the hyphen), a hyphen, and the 32-bit FNV-1a hash of \<open>data\<close> as an unsigned decimal; that
  result has at most 253 code points. The result is a function of the arguments alone.
\<close>

theorem get_pod_name_spec:
  "get_pod_name wf_name wf_name template_name node_id = Inr wf_name \<and>
   (wf_name \<noteq> node_name \<longrightarrow> encode node_name = Inr data \<longrightarrow>
     get_pod_name wf_name node_name template_name node_id
       = Inr (take 242 (wf_name @ str ''-'' @ template_name) @ str ''-'' @ str_int (uint (fnv1a_32 data)))
     \<and> length (take 242 (wf_name @ str ''-'' @ template_name) @ str ''-'' @ str_int (uint (fnv1a_32 data))) \<le> 253)"
proof (intro conjI impI)
  show "get_pod_name wf_name wf_name template_name node_id = Inr wf_name"
    by (simp add: get_pod_name_def)
next
  assume "wf_name \<noteq> node_name" and "encode node_name = Inr data"
  then show "get_pod_name wf_name node_name template_name node_id
       = Inr (take 242 (wf_name @ str ''-'' @ template_name) @ str ''-'' @ str_int (uint (fnv1a_32 data)))"
    by (simp add: get_pod_name_def fnva_32_numeral Let_def max_k8s_resource_name_length_def
        k8s_naming_hash_length_def str_def)
next
  show "length (take 242 (wf_name @ str ''-'' @ template_name) @ str ''-'' @ str_int (uint (fnv1a_32 data))) \<le> 253"
    by (rule length_pod_name)
qed

theorem get_pod_name_spec_witness:
  "get_pod_name (str ''wf'') (str ''wf'') (str ''t'') (str ''id'') = Inr (str ''wf'') \<and>
   str ''wf'' \<noteq> str ''step'' \<and> encode (str ''step'') = Inr [115, 116, 101, 112] \<and>
   get_pod_name (str ''wf'') (str ''step'') (str ''t'') (str ''id'') = Inr (str ''wf-t-3343129103'')"
proof -
  have ne: "str ''wf'' \<noteq> str ''step''"
    by (simp add: str_def)
  have enc: "encode (str ''step'') = Inr [115, 116, 101, 112]"
    by (simp add: str_def utf8_def)
  have h: "uint (fnv1a_32 [115, 116, 101, 112]) = 3343129103"
    by (simp add: fnv1a_32_def)
  have d: "str_int 3343129103 = str ''3343129103''"
    by (simp add: str_int_def str_nat.simps str_def)
  from get_pod_name_spec [of "str ''wf''" "str ''t''" "str ''id''" "str ''step''" "[115, 116, 101, 112]"]
    ne enc
  have "get_pod_name (str ''wf'') (str ''wf'') (str ''t'') (str ''id'') = Inr (str ''wf'')"
    and "get_pod_name (str ''wf'') (str ''step'') (str ''t'') (str ''id'')
       = Inr (take 242 (str ''wf'' @ str ''-'' @ str ''t'') @ str ''-''
              @ str_int (uint (fnv1a_32 [115, 116, 101, 112])))"
    by blast+
  then show ?thesis
    using ne enc by (simp add: h d) (simp add: str_def)
qed

text \<open>
  The claim as stated bounds every result by 253 characters; the root-node case returns the
  workflow name whatever its length.
\<close>

theorem get_pod_name_length_counterexample:
  "get_pod_name (replicate 254 97) (replicate 254 97) (str ''t'') (str ''id'') = Inr (replicate 254 97)
   \<and> \<not> length (replicate 254 (97::nat)) \<le> 253"
  by (simp add: get_pod_name_def)

section \<open>Output artifacts\<close>

lemma get_put [simp]:
  "get_output_artifact self aname = Inr a \<Longrightarrow>
   get_output_artifact (put_output_artifact self aname art) aname = Inr art"
  by (auto simp: get_output_artifact_def put_output_artifact_def split: option.splits)




section \<open>Sliced output artifacts\<close>

lemma place_length:
  "place zs np = Inr np' \<Longrightarrow> length np' = length np"
  by (induction zs arbitrary: np)
     (auto simp: list_setitem_def Let_def split: sum.splits if_splits)

lemma place_ok:
  "\<forall>z \<in> set zs. 0 \<le> order (snd z) \<and> order (snd z) < int (length np) \<Longrightarrow> \<exists>np'. place zs np = Inr np'"
proof (induction zs arbitrary: np)
  case Nil
  show ?case by simp
next
  case (Cons z zs)
  obtain p it where z: "z = (p, it)" by (cases z)
  from Cons.prems z have r: "0 \<le> order it" "order it < int (length np)" by auto
  then have s: "list_setitem np (order it) (Some p) = Inr (np[nat (order it) := Some p])"
    by (simp add: list_setitem_def)
  from Cons.prems have "\<forall>z \<in> set zs. 0 \<le> order (snd z) \<and> order (snd z) < int (length (np[nat (order it) := Some p]))"
    by simp
  from Cons.IH [OF this] show ?case by (simp add: z s)
qed

lemma place_other:
  "place zs np = Inr np' \<Longrightarrow> k < length np \<Longrightarrow> \<forall>z \<in> set zs. 0 \<le> order (snd z) \<Longrightarrow>
   int k \<notin> (order \<circ> snd) ` set zs \<Longrightarrow> np' ! k = np ! k"
proof (induction zs arbitrary: np)
  case Nil
  then show ?case by simp
next
  case (Cons z zs)
  obtain p it where z: "z = (p, it)" by (cases z)
  from Cons.prems z have o: "0 \<le> order it" "order it \<noteq> int k" by auto
  from Cons.prems(1) z o obtain np1 where
    s: "np1 = np[nat (order it) := Some p]" and r: "place zs np1 = Inr np'"
    by (auto simp: list_setitem_def Let_def split: sum.splits if_splits)
  have "np' ! k = np1 ! k"
    using Cons.IH [OF r] Cons.prems s by simp
  moreover from o have "nat (order it) \<noteq> k" by auto
  ultimately show ?case by (simp add: s)
qed

lemma place_at:
  "place zs np = Inr np' \<Longrightarrow> \<forall>z \<in> set zs. 0 \<le> order (snd z) \<Longrightarrow> i < length zs \<Longrightarrow>
   \<forall>j. i < j \<and> j < length zs \<longrightarrow> order (snd (zs ! j)) \<noteq> order (snd (zs ! i)) \<Longrightarrow>
   np' ! nat (order (snd (zs ! i))) = Some (fst (zs ! i))"
proof (induction zs arbitrary: np i)
  case Nil
  then show ?case by simp
next
  case (Cons z zs)
  obtain p it where z: "z = (p, it)" by (cases z)
  from Cons.prems z have o: "0 \<le> order it" by auto
  from Cons.prems(1) z o obtain np1 where
    s: "np1 = np[nat (order it) := Some p]" and r: "place zs np1 = Inr np'"
    and b: "order it < int (length np)"
    by (auto simp: list_setitem_def Let_def split: sum.splits if_splits)
  show ?case
  proof (cases i)
    case 0
    have "int (nat (order it)) \<notin> (order \<circ> snd) ` set zs"
    proof
      assume "int (nat (order it)) \<in> (order \<circ> snd) ` set zs"
      then obtain y where y: "y \<in> set zs" "order (snd y) = order it" using o by auto
      then obtain j where "j < length zs" "zs ! j = y" by (auto simp: in_set_conv_nth)
      with Cons.prems(4) [rule_format, of "Suc j"] 0 y z show False by simp
    qed
    moreover have "nat (order it) < length np1" using b o s by simp
    ultimately have "np' ! nat (order it) = np1 ! nat (order it)"
      using place_other [OF r] Cons.prems(2) by simp
    then show ?thesis using 0 z s b o by simp
  next
    case (Suc i')
    have "np' ! nat (order (snd (zs ! i'))) = Some (fst (zs ! i'))"
    proof (rule Cons.IH [OF r])
      show "\<forall>z\<in>set zs. 0 \<le> order (snd z)" using Cons.prems(2) by simp
      show "i' < length zs" using Cons.prems(3) Suc by simp
      show "\<forall>j. i' < j \<and> j < length zs \<longrightarrow> order (snd (zs ! j)) \<noteq> order (snd (zs ! i'))"
        using Cons.prems(4) [rule_format, of "Suc j" for j] Suc by auto
    qed
    then show ?thesis using Suc by simp
  qed
qed


lemma sorted_le_last:
  "sorted xs \<Longrightarrow> x \<in> set xs \<Longrightarrow> x \<le> last (xs :: int list)"
  by (induction xs) auto

lemma order_last_sort_key:
  assumes "xs \<noteq> []"
  shows "order (last (sort_key order xs)) = Max (order ` set xs)"
proof -
  let ?ys = "sort_key order xs"
  have ne: "?ys \<noteq> []" using assms by (metis length_sort length_0_conv)
  have "last (map order ?ys) = order (last ?ys)" using ne by (simp add: last_map)
  moreover have "\<forall>x \<in> set xs. order x \<le> last (map order ?ys)"
  proof
    fix x assume "x \<in> set xs"
    then have "order x \<in> set (map order ?ys)" by simp
    then show "order x \<le> last (map order ?ys)"
      using sorted_le_last [OF sorted_sort_key] by blast
  qed
  moreover have "last ?ys \<in> set xs" using ne last_in_set [of ?ys] by simp
  ultimately show ?thesis
    by (intro Max_eqI [symmetric]) auto
qed

lemma upload_sliced_main:
  assumes m: "sliced_manifest self aname = Some par"
    and v: "par_value par = Some v"
    and l: "loads v = Inr path_list"
    and p: "paths = as_list path"
    and n: "length path_list = length paths"
    and ne: "path_list \<noteq> []"
    and nonneg: "\<forall>x \<in> set path_list. 0 \<le> order x"
    and srt: "sorted_list = sort_key order path_list"
  shows "\<exists>new_path.
      upload_and_modify_sliced_output_artifact cfg loads upload_artifact self aname path
        = (case upload_artifact new_path of
             Inl e \<Rightarrow> Inl e
           | Inr s3 \<Rightarrow> modify_output_artifact cfg self aname s3)
      \<and> int (length new_path) = Max (order ` set path_list) + 1
      \<and> (\<forall>i < length paths.
            (\<forall>j. i < j \<and> j < length paths \<longrightarrow> order (sorted_list ! j) \<noteq> order (sorted_list ! i))
            \<longrightarrow> new_path ! nat (order (sorted_list ! i)) = Some (paths ! i))
      \<and> (\<forall>k < length new_path. int k \<notin> order ` set path_list \<longrightarrow> new_path ! k = None)"
proof -
  let ?zs = "zip paths sorted_list"
  let ?np0 = "replicate (nat (order (last sorted_list) + 1)) (None :: string option)"
  have len: "length sorted_list = length paths" using n srt by simp
  have sne: "sorted_list \<noteq> []" using ne srt by (metis length_sort length_0_conv)
  have mx: "order (last sorted_list) = Max (order ` set path_list)"
    using order_last_sort_key [OF ne] srt by simp
  have setz: "snd ` set ?zs = set path_list"
    using len srt by (simp add: set_zip_rightD) (metis len map_snd_zip set_map set_sort srt)
  have mx_nonneg: "0 \<le> Max (order ` set path_list)"
  proof -
    from ne obtain x where x: "x \<in> set path_list" by (cases path_list) auto
    then have le: "order x \<le> Max (order ` set path_list)" by (simp add: Max_ge)
    from nonneg x have "0 \<le> order x" by blast
    with le show ?thesis by linarith
  qed
  have bound: "\<forall>z \<in> set ?zs. 0 \<le> order (snd z) \<and> order (snd z) < int (length ?np0)"
  proof
    fix z assume "z \<in> set ?zs"
    then have "snd z \<in> set path_list" using setz by blast
    then show "0 \<le> order (snd z) \<and> order (snd z) < int (length ?np0)"
      using nonneg mx mx_nonneg by (simp add: Max_ge)
  qed
  from place_ok [OF bound] obtain new_path where pl: "place ?zs ?np0 = Inr new_path" by blast
  have lnp: "length new_path = length ?np0" using place_length [OF pl] .
  have nn: "\<forall>z \<in> set ?zs. 0 \<le> order (snd z)" using bound by blast
  have run: "upload_and_modify_sliced_output_artifact cfg loads upload_artifact self aname path
        = (case upload_artifact new_path of
             Inl e \<Rightarrow> Inl e
           | Inr s3 \<Rightarrow> modify_output_artifact cfg self aname s3)"
    using m v l n sne pl
    by (simp add: upload_and_modify_sliced_output_artifact_def p [symmetric] srt [symmetric])
  have a: "int (length new_path) = Max (order ` set path_list) + 1"
    using lnp mx mx_nonneg by simp
  have b: "\<forall>i < length paths.
            (\<forall>j. i < j \<and> j < length paths \<longrightarrow> order (sorted_list ! j) \<noteq> order (sorted_list ! i))
            \<longrightarrow> new_path ! nat (order (sorted_list ! i)) = Some (paths ! i)"
  proof (intro allI impI)
    fix i assume i: "i < length paths"
      and d: "\<forall>j. i < j \<and> j < length paths \<longrightarrow> order (sorted_list ! j) \<noteq> order (sorted_list ! i)"
    have "new_path ! nat (order (snd (?zs ! i))) = Some (fst (?zs ! i))"
    proof (rule place_at [OF pl nn])
      show "i < length ?zs" using i len by simp
      show "\<forall>j. i < j \<and> j < length ?zs \<longrightarrow> order (snd (?zs ! j)) \<noteq> order (snd (?zs ! i))"
        using d i len by simp
    qed
    then show "new_path ! nat (order (sorted_list ! i)) = Some (paths ! i)"
      using i len by simp
  qed
  have c: "\<forall>k < length new_path. int k \<notin> order ` set path_list \<longrightarrow> new_path ! k = None"
  proof (intro allI impI)
    fix k assume k: "k < length new_path" and nk: "int k \<notin> order ` set path_list"
    have "int k \<notin> (order \<circ> snd) ` set ?zs"
      using nk setz by (metis image_comp)
    then have "new_path ! k = ?np0 ! k"
      using place_other [OF pl _ nn] k lnp by simp
    then show "new_path ! k = None" using k lnp by simp
  qed
  from run a b c show ?thesis by blast
qed

lemma upload_sliced_no_manifest:
  "sliced_manifest self aname = None \<Longrightarrow>
   upload_and_modify_sliced_output_artifact cfg loads upload_artifact self aname path = Inl AssertionError"
  by (simp add: upload_and_modify_sliced_output_artifact_def)

lemma upload_sliced_mismatch:
  "sliced_manifest self aname = Some par \<Longrightarrow> par_value par = Some v \<Longrightarrow> loads v = Inr path_list \<Longrightarrow>
   length path_list \<noteq> length (as_list path) \<Longrightarrow>
   upload_and_modify_sliced_output_artifact cfg loads upload_artifact self aname path = Inl AssertionError"
  by (simp add: upload_and_modify_sliced_output_artifact_def)

text \<open>
  Claim C8, as amended. Without the manifest parameter \<open>dflow_<name>_path_list\<close> the call
  fails an assertion; so it does when the number of supplied paths differs from the number of
  manifest records. With as many paths as records, at least one record, and no negative
  \<open>order\<close>, the call uploads one collection \<open>new_path\<close> and hands the uploaded object to
  \<open>modify_output_artifact\<close>, where: \<open>new_path\<close> has \<open>max(order) + 1\<close> places; the \<open>i\<close>-th
  supplied path stands at the \<open>order\<close> of the \<open>i\<close>-th record of the manifest sorted by
  \<open>order\<close> (unless a later record has the same \<open>order\<close>); a place that is no record's
  \<open>order\<close> is \<open>None\<close>.
\<close>

theorem upload_and_modify_sliced_output_artifact_spec:
  "(sliced_manifest self aname = None \<longrightarrow>
      upload_and_modify_sliced_output_artifact cfg loads upload_artifact self aname path
        = Inl AssertionError) \<and>
   (sliced_manifest self aname = Some par \<and> par_value par = Some v \<and> loads v = Inr path_list \<longrightarrow>
      (length path_list \<noteq> length (as_list path) \<longrightarrow>
         upload_and_modify_sliced_output_artifact cfg loads upload_artifact self aname path
           = Inl AssertionError) \<and>
      (length path_list = length (as_list path) \<and> path_list \<noteq> [] \<and> (\<forall>x \<in> set path_list. 0 \<le> order x) \<longrightarrow>
         (\<exists>new_path.
            upload_and_modify_sliced_output_artifact cfg loads upload_artifact self aname path
              = (case upload_artifact new_path of
                   Inl e \<Rightarrow> Inl e
                 | Inr s3 \<Rightarrow> modify_output_artifact cfg self aname s3)
            \<and> int (length new_path) = Max (order ` set path_list) + 1
            \<and> (\<forall>i < length (as_list path).
                  (\<forall>j. i < j \<and> j < length (as_list path) \<longrightarrow>
                     order (sort_key order path_list ! j) \<noteq> order (sort_key order path_list ! i))
                  \<longrightarrow> new_path ! nat (order (sort_key order path_list ! i)) = Some (as_list path ! i))
            \<and> (\<forall>k < length new_path. int k \<notin> order ` set path_list \<longrightarrow> new_path ! k = None))))"
  using upload_sliced_no_manifest [of self aname cfg loads upload_artifact path]
    upload_sliced_mismatch [of self aname par v loads path_list path cfg upload_artifact]
    upload_sliced_main [of self aname par v loads path_list "as_list path" path
                           "sort_key order path_list" cfg upload_artifact]
  by blast

theorem upload_and_modify_sliced_output_artifact_spec_witness:
  "sliced_manifest (example_step Map.empty) ''out'' = Some \<lparr>par_value = Some ''manifest''\<rparr>
   \<and> example_loads example_manifest ''manifest'' = Inr example_manifest
   \<and> length example_manifest = length (as_list (PathList [''p0'', ''p1'', ''p2'']))
   \<and> (\<exists>new_path.
          upload_and_modify_sliced_output_artifact example_settings (example_loads example_manifest)
              example_upload (example_step Map.empty) ''out'' (PathList [''p0'', ''p1'', ''p2''])
            = (case example_upload new_path of
                 Inl e \<Rightarrow> Inl e
               | Inr s3 \<Rightarrow> modify_output_artifact example_settings (example_step Map.empty) ''out'' s3)
          \<and> length new_path = 3
          \<and> new_path ! 0 = Some ''p0'' \<and> new_path ! 1 = Some ''p1'' \<and> new_path ! 2 = Some ''p2'')"
proof -
  let ?par = "\<lparr>par_value = Some ''manifest''\<rparr>"
  let ?path = "PathList [''p0'', ''p1'', ''p2'']"
  have m: "sliced_manifest (example_step Map.empty) ''out'' = Some ?par"
    by (simp add: sliced_manifest_def example_step_def)
  have l: "example_loads example_manifest ''manifest'' = Inr example_manifest"
    by (simp add: example_loads_def)
  have n: "length example_manifest = length (as_list ?path)"
    by (simp add: example_manifest_def as_list_def)
  have ne: "example_manifest \<noteq> []"
    by (simp add: example_manifest_def)
  have nonneg: "\<forall>x \<in> set example_manifest. 0 \<le> order x"
    by (simp add: example_manifest_def)
  have srt: "sort_key order example_manifest
      = [\<lparr>dflow_list_item = ''a'', order = 0\<rparr>, \<lparr>dflow_list_item = ''b'', order = 1\<rparr>,
         \<lparr>dflow_list_item = ''c'', order = 2\<rparr>]"
    by (simp add: example_manifest_def)
  have mx: "Max (order ` set example_manifest) = 2"
    by (simp add: example_manifest_def)
  from upload_and_modify_sliced_output_artifact_spec
         [of "example_step Map.empty" "''out''" example_settings "example_loads example_manifest"
             example_upload ?path ?par "''manifest''" example_manifest]
       m l n ne nonneg
  obtain new_path where
    r: "upload_and_modify_sliced_output_artifact example_settings (example_loads example_manifest)
              example_upload (example_step Map.empty) ''out'' ?path
            = (case example_upload new_path of
                 Inl e \<Rightarrow> Inl e
               | Inr s3 \<Rightarrow> modify_output_artifact example_settings (example_step Map.empty) ''out'' s3)"
    and len: "int (length new_path) = Max (order ` set example_manifest) + 1"
    and at: "\<forall>i < length (as_list ?path).
                  (\<forall>j. i < j \<and> j < length (as_list ?path) \<longrightarrow>
                     order (sort_key order example_manifest ! j) \<noteq> order (sort_key order example_manifest ! i))
                  \<longrightarrow> new_path ! nat (order (sort_key order example_manifest ! i)) = Some (as_list ?path ! i)"
    by auto
  have l3: "length new_path = 3" using len mx by simp
  have d: "order (sort_key order example_manifest ! j) \<noteq> order (sort_key order example_manifest ! i)"
    if "i < j" and "j < length (as_list ?path)" for i j
  proof -
    from that have "(i = 0 \<and> j = 1) \<or> (i = 0 \<and> j = 2) \<or> (i = 1 \<and> j = 2)"
      by (simp add: as_list_def) arith
    then show ?thesis by (auto simp: srt)
  qed
  have e: "new_path ! nat (order (sort_key order example_manifest ! i)) = Some (as_list ?path ! i)"
    if "i < length (as_list ?path)" for i
    using at that d by blast
  have "new_path ! 0 = Some ''p0''"
    using e [of 0] by (simp add: srt as_list_def)
  moreover have "new_path ! 1 = Some ''p1''"
    using e [of 1] by (simp add: srt as_list_def)
  moreover have "new_path ! 2 = Some ''p2''"
    using e [of 2] by (simp add: srt as_list_def)
  ultimately show ?thesis using m l n r l3 by blast
qed

text \<open>
  The claim as stated promises the upload whenever the manifest parameter exists and the
  counts agree; with an empty manifest and no path both hold, and \<open>path_list[-1]\<close> raises.
\<close>

theorem upload_and_modify_sliced_output_artifact_empty_counterexample:
  "sliced_manifest (example_step Map.empty) ''out'' \<noteq> None
   \<and> example_loads [] ''manifest'' = Inr []
   \<and> length ([] :: slice_item list) = length (as_list (PathList []))
   \<and> upload_and_modify_sliced_output_artifact example_settings (example_loads [])
        example_upload (example_step Map.empty) ''out'' (PathList []) = Inl IndexError"
  by (simp add: upload_and_modify_sliced_output_artifact_def sliced_manifest_def example_step_def
      example_loads_def as_list_def)

section \<open>get_step\<close>







text \<open>
  The constructor of \<open>ArgoStep\<close> raises for a node that passed every test, when its
  parameter \<open>dflow_key\<close> has no value: without a key filter \<open>get_step\<close> raises
  \<open>AttributeError\<close>, with one the loop body raises \<open>KeyError\<close> before.
\<close>

lemma get_step_key_without_value:
  "get_step example_externals
     \<lparr>status = Some \<lparr>nodes = Some
        [(''n1'', (example_node (Time ''2023-01-02T00:00:00Z'') ''a'' ''n1'')
            \<lparr>node_inputs := Some
               \<lparr>raw_parameters = Some
                  [\<lparr>raw_name = Some ''dflow_key'', raw_value = None, raw_description = None\<rparr>],
                raw_artifacts = None\<rparr>\<rparr>)]\<rparr>,
      metadata_name = Some ''wf''\<rparr>
     Unset key_arg Unset Unset Unset
   = Inl (if key_arg = Unset then AttributeError else KeyError)"
  by (cases key_arg)
     (simp_all add: get_step_def example_node_def to_list_def keep_def and_then_def
      name_ok_def key_ok_def phase_ok_def type_ok_def id_ok_def step_key_of_def
      ArgoStep_init_def key_error_def handle_io_def value_error_def example_externals_def)
section \<open>The reflective tree\<close>

lemma extends_except_refl: "extends_except r h h"
  by (simp add: extends_except_def)

lemma set_entry_length [simp]: "length (set_entry h r k v) = length h"
  by (simp add: set_entry_def split: cell.splits)

lemma set_entry_other [simp]: "i \<noteq> r \<Longrightarrow> set_entry h r k v ! i = h ! i"
  by (simp add: set_entry_def split: cell.splits)

lemma set_entry_kind [simp]: "is_dict (set_entry h r k v ! r) = is_dict (h ! r)"
  by (cases "r < length h") (auto simp: set_entry_def list_update_beyond split: cell.splits)

lemma set_index_length [simp]: "length (set_index h r j v) = length h"
  by (simp add: set_index_def split: cell.splits)

lemma set_index_other [simp]: "i \<noteq> r \<Longrightarrow> set_index h r j v ! i = h ! i"
  by (simp add: set_index_def split: cell.splits)

lemma set_index_kind [simp]: "is_dict (set_index h r j v ! r) = is_dict (h ! r)"
  by (cases "r < length h") (auto simp: set_index_def list_update_beyond split: cell.splits)

lemma loop_step:
  assumes r: "r < length h"
    and a: "allocates b h c h1"
    and h2: "length h2 = length h1" "\<forall>i. i \<noteq> r \<longrightarrow> h2 ! i = h1 ! i" "is_dict (h2 ! r) = is_dict (h1 ! r)"
    and l: "r < length h2 \<longrightarrow> extends_except r h2 h3"
  shows "extends_except r h h3"
proof -
  from a have a1: "length h < length h1" and a2: "\<forall>i < length h. h1 ! i = h ! i"
    by (simp_all add: allocates_def)
  from r a1 h2(1) l have e: "extends_except r h2 h3" by simp
  then have e1: "length h2 \<le> length h3" and e2: "\<forall>i < length h2. i \<noteq> r \<longrightarrow> h3 ! i = h2 ! i"
    and e3: "is_dict (h3 ! r) = is_dict (h2 ! r)"
    by (simp_all add: extends_except_def)
  have "length h \<le> length h3" using a1 h2(1) e1 by simp
  moreover have "\<forall>i < length h. i \<noteq> r \<longrightarrow> h3 ! i = h ! i"
  proof (intro allI impI)
    fix i assume i: "i < length h" "i \<noteq> r"
    then have "h3 ! i = h2 ! i" using e2 a1 h2(1) by simp
    also have "\<dots> = h1 ! i" using h2(2) i by simp
    also have "\<dots> = h ! i" using a2 i by simp
    finally show "h3 ! i = h ! i" .
  qed
  moreover have "is_dict (h3 ! r) = is_dict (h ! r)"
    using e3 h2(3) a2 r by simp
  ultimately show ?thesis by (simp add: extends_except_def)
qed

lemma init_from_loop:
  assumes "length h < length (h @ [x]) \<longrightarrow> extends_except (length h) (h @ [x]) h'"
  shows "allocates (is_dict x) h (length h) h'"
proof -
  from assms have e: "extends_except (length h) (h @ [x]) h'" by simp
  then have "length h < length h'" by (simp add: extends_except_def)
  moreover have "\<forall>i < length h. h' ! i = h ! i"
    using e by (auto simp: extends_except_def nth_append)
  moreover have "is_dict (h' ! length h) = is_dict x"
    using e by (simp add: extends_except_def)
  ultimately show ?thesis by (simp add: allocates_def)
qed


lemma init_frame:
  "allocates True h (fst (ArgoObjectDict_init d h)) (snd (ArgoObjectDict_init d h))"
  "allocates False h (fst (ArgoObjectList_init li h)) (snd (ArgoObjectList_init li h))"
  "r < length h \<longrightarrow> extends_except r h (dict_loop r items h)"
  "r < length h \<longrightarrow> extends_except r h (list_loop r n vs h)"
proof (induction d h and li h and r items h and r n vs h
    rule: ArgoObjectDict_init_ArgoObjectList_init_dict_loop_list_loop.induct)
  case (1 d h)
  from init_from_loop [of h "DictCell (map (\<lambda>(k, v). (k, Plain v)) d)", OF "1.IH"]
  show ?case by (simp add: ArgoObjectDict_init.simps)
next
  case (2 li h)
  from init_from_loop [of h "ListCell (map Plain li)", OF "2.IH"]
  show ?case by (simp add: ArgoObjectList_init.simps)
next
  case (3 r h)
  show ?case by (simp add: extends_except_refl)
next
  case (4 r k v rest h)
  show ?case
  proof (cases v)
    case (JDict d)
    obtain c h1 where i: "ArgoObjectDict_init d h = (c, h1)" by (cases "ArgoObjectDict_init d h")
    have a: "allocates True h c h1" using "4.IH"(7) [OF JDict] i by simp
    have l: "r < length (set_entry h1 r k (Obj c)) \<longrightarrow>
               extends_except r (set_entry h1 r k (Obj c)) (dict_loop r rest (set_entry h1 r k (Obj c)))"
      using "4.IH"(8) [OF JDict i [symmetric]] .
    have e: "dict_loop r ((k, v) # rest) h = dict_loop r rest (set_entry h1 r k (Obj c))"
      using JDict i by simp
    show ?thesis
    proof
      assume r: "r < length h"
      show "extends_except r h (dict_loop r ((k, v) # rest) h)"
        unfolding e by (rule loop_step [OF r a _ _ _ l]) simp_all
    qed
  next
    case (JList li)
    obtain c h1 where i: "ArgoObjectList_init li h = (c, h1)" by (cases "ArgoObjectList_init li h")
    have a: "allocates False h c h1" using "4.IH"(5) [OF JList] i by simp
    have l: "r < length (set_entry h1 r k (Obj c)) \<longrightarrow>
               extends_except r (set_entry h1 r k (Obj c)) (dict_loop r rest (set_entry h1 r k (Obj c)))"
      using "4.IH"(6) [OF JList i [symmetric]] .
    have e: "dict_loop r ((k, v) # rest) h = dict_loop r rest (set_entry h1 r k (Obj c))"
      using JList i by simp
    show ?thesis
    proof
      assume r: "r < length h"
      show "extends_except r h (dict_loop r ((k, v) # rest) h)"
        unfolding e by (rule loop_step [OF r a _ _ _ l]) simp_all
    qed
  next
    case JNull
    with "4.IH"(1) show ?thesis by simp
  next
    case (JBool b)
    with "4.IH"(2) show ?thesis by simp
  next
    case (JInt n)
    with "4.IH"(3) show ?thesis by simp
  next
    case (JStr s)
    with "4.IH"(4) show ?thesis by simp
  qed
next
  case (5 r i h)
  show ?case by (simp add: extends_except_refl)
next
  case (6 r n v rest h)
  show ?case
  proof (cases v)
    case (JDict d)
    obtain c h1 where i: "ArgoObjectDict_init d h = (c, h1)" by (cases "ArgoObjectDict_init d h")
    have a: "allocates True h c h1" using "6.IH"(7) [OF JDict] i by simp
    have l: "r < length (set_index h1 r n (Obj c)) \<longrightarrow>
               extends_except r (set_index h1 r n (Obj c)) (list_loop r (Suc n) rest (set_index h1 r n (Obj c)))"
      using "6.IH"(8) [OF JDict i [symmetric]] .
    have e: "list_loop r n (v # rest) h = list_loop r (Suc n) rest (set_index h1 r n (Obj c))"
      using JDict i by simp
    show ?thesis
    proof
      assume r: "r < length h"
      show "extends_except r h (list_loop r n (v # rest) h)"
        unfolding e by (rule loop_step [OF r a _ _ _ l]) simp_all
    qed
  next
    case (JList li)
    obtain c h1 where i: "ArgoObjectList_init li h = (c, h1)" by (cases "ArgoObjectList_init li h")
    have a: "allocates False h c h1" using "6.IH"(5) [OF JList] i by simp
    have l: "r < length (set_index h1 r n (Obj c)) \<longrightarrow>
               extends_except r (set_index h1 r n (Obj c)) (list_loop r (Suc n) rest (set_index h1 r n (Obj c)))"
      using "6.IH"(6) [OF JList i [symmetric]] .
    have e: "list_loop r n (v # rest) h = list_loop r (Suc n) rest (set_index h1 r n (Obj c))"
      using JList i by simp
    show ?thesis
    proof
      assume r: "r < length h"
      show "extends_except r h (list_loop r n (v # rest) h)"
        unfolding e by (rule loop_step [OF r a _ _ _ l]) simp_all
    qed
  next
    case JNull
    with "6.IH"(1) show ?thesis by simp
  next
    case (JBool b)
    with "6.IH"(2) show ?thesis by simp
  next
    case (JInt n)
    with "6.IH"(3) show ?thesis by simp
  next
    case (JStr s)
    with "6.IH"(4) show ?thesis by simp
  qed
qed


lemma map_of_dict_set: "map_of (dict_set k v d) k' = (if k' = k then Some v else map_of d k')"
  by (induction d) auto

lemma set_entry_dict:
  "r < length h \<Longrightarrow> h ! r = DictCell d \<Longrightarrow> set_entry h r k v ! r = DictCell (dict_set k v d)"
  by (simp add: set_entry_def)

lemma dict_loop_keeps:
  "k \<notin> fst ` set items \<Longrightarrow> r < length h \<Longrightarrow> h ! r = DictCell data \<Longrightarrow>
   \<exists>data'. dict_loop r items h ! r = DictCell data' \<and> map_of data' k = map_of data k"
proof (induction items arbitrary: h data)
  case Nil
  then show ?case by simp
next
  case (Cons item items)
  obtain k' v where item: "item = (k', v)" by (cases item)
  from Cons.prems item have ne: "k \<noteq> k'" and rest: "k \<notin> fst ` set items" by auto
  have step: "\<exists>data'. dict_loop r items (set_entry h1 r k' (Obj c)) ! r = DictCell data'
                 \<and> map_of data' k = map_of data k"
    if a: "allocates b h c h1" for b c h1
  proof -
    from a Cons.prems have r1: "r < length h1" and c1: "h1 ! r = DictCell data"
      by (simp_all add: allocates_def)
    have "set_entry h1 r k' (Obj c) ! r = DictCell (dict_set k' (Obj c) data)"
      by (rule set_entry_dict [OF r1 c1])
    from Cons.IH [OF rest _ this] r1 ne show ?thesis
      by (simp add: map_of_dict_set)
  qed
  show ?case
  proof (cases v)
    case (JDict d)
    from step [OF init_frame(1) [of h d]] show ?thesis
      by (simp add: item JDict split_beta)
  next
    case (JList li)
    from step [OF init_frame(2) [of h li]] show ?thesis
      by (simp add: item JList split_beta)
  qed (use Cons.IH [OF rest Cons.prems(2,3)] item in simp_all)
qed

lemma dict_loop_entry:
  "distinct (map fst items) \<Longrightarrow> (k, JDict sub) \<in> set items \<Longrightarrow> r < length h \<Longrightarrow>
   h ! r = DictCell data \<Longrightarrow>
   \<exists>data' c. dict_loop r items h ! r = DictCell data' \<and> map_of data' k = Some (Obj c)
      \<and> c \<noteq> r \<and> c < length (dict_loop r items h) \<and> is_dict (dict_loop r items h ! c)"
proof (induction items arbitrary: h data)
  case Nil
  then show ?case by simp
next
  case (Cons item items)
  obtain k' v where item: "item = (k', v)" by (cases item)
  from Cons.prems(1) item have dist: "distinct (map fst items)" and fresh: "k' \<notin> fst ` set items"
    by auto
  show ?case
  proof (cases "(k, JDict sub) \<in> set items")
    case True
    have step: "\<exists>data' c'. dict_loop r items (set_entry h1 r k' (Obj c)) ! r = DictCell data'
        \<and> map_of data' k = Some (Obj c') \<and> c' \<noteq> r
        \<and> c' < length (dict_loop r items (set_entry h1 r k' (Obj c)))
        \<and> is_dict (dict_loop r items (set_entry h1 r k' (Obj c)) ! c')"
      if a: "allocates b h c h1" for b c h1
    proof -
      from a Cons.prems have r1: "r < length h1" and c1: "h1 ! r = DictCell data"
        by (simp_all add: allocates_def)
      have "set_entry h1 r k' (Obj c) ! r = DictCell (dict_set k' (Obj c) data)"
        by (rule set_entry_dict [OF r1 c1])
      from Cons.IH [OF dist True _ this] r1 show ?thesis by simp
    qed
    show ?thesis
    proof (cases v)
      case (JDict d)
      from step [OF init_frame(1) [of h d]] show ?thesis
        by (simp add: item JDict split_beta)
    next
      case (JList li)
      from step [OF init_frame(2) [of h li]] show ?thesis
        by (simp add: item JList split_beta)
    qed (use Cons.IH [OF dist True Cons.prems(3,4)] item in simp_all)
  next
    case False
    with Cons.prems(2) item have kv: "k' = k" "v = JDict sub" by auto
    obtain c h1 where i: "ArgoObjectDict_init sub h = (c, h1)"
      by (cases "ArgoObjectDict_init sub h")
    let ?h2 = "set_entry h1 r k (Obj c)"
    let ?h3 = "dict_loop r items ?h2"
    from init_frame(1) [of h sub] i have a: "allocates True h c h1" by simp
    from a Cons.prems have r1: "r < length h1" and c1: "h1 ! r = DictCell data"
      and cr: "c \<noteq> r" and cl: "c < length h1" and cd: "is_dict (h1 ! c)"
      by (auto simp: allocates_def)
    have h2r: "?h2 ! r = DictCell (dict_set k (Obj c) data)"
      by (rule set_entry_dict [OF r1 c1])
    from fresh kv have "k \<notin> fst ` set items" by simp
    from dict_loop_keeps [OF this _ h2r] r1
    obtain data' where d': "?h3 ! r = DictCell data'" "map_of data' k = Some (Obj c)"
      by (auto simp: map_of_dict_set)
    from init_frame(3) [of r ?h2 items] r1 have e: "extends_except r ?h2 ?h3" by simp
    then have "c < length ?h3" and "?h3 ! c = ?h2 ! c"
      using cl cr by (simp_all add: extends_except_def)
    then have "c < length ?h3" and "is_dict (?h3 ! c)" using cd cr by simp_all
    moreover have "dict_loop r (item # items) h = ?h3"
      by (simp add: item kv i)
    ultimately show ?thesis using d' cr by auto
  qed
qed

lemma ArgoObjectDict_init_entry:
  assumes "distinct (map fst m)" and "(k, JDict sub) \<in> set m"
    and "ArgoObjectDict_init m h = (root, h')"
  shows "\<exists>data c. root < length h' \<and> h' ! root = DictCell data \<and> map_of data k = Some (Obj c)
           \<and> c \<noteq> root \<and> c < length h' \<and> is_dict (h' ! c)"
proof -
  let ?h0 = "h @ [DictCell (map (\<lambda>(k, v). (k, Plain v)) m)]"
  from assms(3) have root: "root = length h" and h': "h' = dict_loop (length h) m ?h0"
    by (auto simp: ArgoObjectDict_init.simps)
  have "length h < length ?h0" by simp
  moreover have "?h0 ! length h = DictCell (map (\<lambda>(k, v). (k, Plain v)) m)" by simp
  ultimately obtain data c where
    "h' ! root = DictCell data" "map_of data k = Some (Obj c)" "c \<noteq> root" "c < length h'"
    "is_dict (h' ! c)"
    using dict_loop_entry [OF assms(1,2), of "length h" ?h0] root h' by blast
  moreover from init_frame(1) [of h m] assms(3) have "root < length h'"
    by (simp add: allocates_def)
  ultimately show ?thesis by blast
qed

text \<open>
  Claim C5. For a mapping \<open>m\<close> (a dictionary, so with distinct keys) that holds a nested
  mapping under \<open>a\<close>: after \<open>root = ArgoObjectDict(m)\<close>, \<open>child = root.a\<close> is a reference to
  a wrapper other than \<open>root\<close>, and after \<open>child.b = v\<close> the read \<open>root.a\<close> still gives \<open>child\<close>
  and \<open>child.b\<close> gives \<open>v\<close>: \<open>root.a.b == v\<close>.
\<close>

theorem write_through:
  assumes "distinct (map fst m)" and "map_of m ''a'' = Some (JDict sub)"
    and "ArgoObjectDict_init m h = (root, h1)"
  shows "\<exists>child. getattr h1 root ''a'' = Inr (Obj child) \<and> child \<noteq> root
           \<and> getattr (setattr h1 child ''b'' v) root ''a'' = Inr (Obj child)
           \<and> getattr (setattr h1 child ''b'' v) child ''b'' = Inr v"
proof -
  from assms(2) have "(''a'', JDict sub) \<in> set m" by (rule map_of_SomeD)
  from ArgoObjectDict_init_entry [OF assms(1) this assms(3)]
  obtain data c where rl: "root < length h1" and r: "h1 ! root = DictCell data"
    and a: "map_of data ''a'' = Some (Obj c)" and ne: "c \<noteq> root" and cl: "c < length h1"
    and cd: "is_dict (h1 ! c)"
    by blast
  from cd obtain dc where c: "h1 ! c = DictCell dc" by (cases "h1 ! c") auto
  have g: "getattr h1 root ''a'' = Inr (Obj c)"
    using r a by (simp add: getattr_def)
  have s: "setattr h1 c ''b'' v = h1[c := DictCell (dict_set ''b'' v dc)]"
    using c by (simp add: setattr_def set_entry_def)
  have "getattr (setattr h1 c ''b'' v) root ''a'' = Inr (Obj c)"
    using r a ne by (simp add: s getattr_def)
  moreover have "getattr (setattr h1 c ''b'' v) c ''b'' = Inr v"
    using cl by (simp add: s getattr_def map_of_dict_set)
  ultimately show ?thesis using g ne by blast
qed

theorem write_through_witness:
  "ArgoObjectDict_init [(''a'', JDict [(''b'', JInt 1)])] []
     = (0, [DictCell [(''a'', Obj 1)], DictCell [(''b'', Plain (JInt 1))]])
   \<and> (\<exists>child.
         getattr [DictCell [(''a'', Obj 1)], DictCell [(''b'', Plain (JInt 1))]] 0 ''a'' = Inr (Obj child)
         \<and> child \<noteq> 0
         \<and> getattr (setattr [DictCell [(''a'', Obj 1)], DictCell [(''b'', Plain (JInt 1))]]
                       child ''b'' (Plain (JInt 2))) 0 ''a'' = Inr (Obj child)
         \<and> getattr (setattr [DictCell [(''a'', Obj 1)], DictCell [(''b'', Plain (JInt 1))]]
                       child ''b'' (Plain (JInt 2))) child ''b'' = Inr (Plain (JInt 2)))"
proof -
  have i: "ArgoObjectDict_init [(''a'', JDict [(''b'', JInt 1)])] []
     = (0, [DictCell [(''a'', Obj 1)], DictCell [(''b'', Plain (JInt 1))]])"
    by (simp add: ArgoObjectDict_init.simps set_entry_def)
  have d: "distinct (map fst [(''a'', JDict [(''b'', JInt 1)])])" by simp
  have m: "map_of [(''a'', JDict [(''b'', JInt 1)])] ''a'' = Some (JDict [(''b'', JInt 1)])" by simp
  from write_through [OF d m i, of "Plain (JInt 2)"] i show ?thesis by simp
qed

section \<open>The local scheduler\<close>

lemma finish_eq:
  "finish s t = (if t \<notin> set (running s) then (Some ValueError, s) else resolve (mark_finished s t))"
  by (simp add: finish_def)

lemma resolve_from_invariant:
  assumes "resolve_from n s = (e, s')" and "P s"
    and admit: "\<And>u task i. P u \<Longrightarrow> task \<in> set (waiting u) \<Longrightarrow> ready u task \<Longrightarrow>
                  index_of (tasks u) task = Some i \<Longrightarrow> P (admit u task i)"
    and pending: "\<And>u task. P u \<Longrightarrow> task \<in> set (waiting u) \<Longrightarrow> ready u task \<Longrightarrow>
                  index_of (tasks u) task = None \<Longrightarrow> P (set_phase u task ''Pending'')"
  shows "P s'"
  using assms(1,2)
proof (induction n s arbitrary: e s' rule: resolve_from.induct)
  case (1 n s)
  show ?case
  proof (cases "n < length (waiting s)")
    case False
    with "1.prems" show ?thesis by (simp add: resolve_from.simps)
  next
    case True
    let ?task = "waiting s ! n"
    from True have mem: "?task \<in> set (waiting s)" by simp
    show ?thesis
    proof (cases "ready s ?task")
      case False
      with True "1.prems" have "resolve_from (Suc n) s = (e, s')"
        by (simp add: resolve_from.simps [of n s])
      from "1.IH"(2) [OF True refl False this "1.prems"(2)] show ?thesis .
    next
      case r: True
      show ?thesis
      proof (cases "index_of (tasks s) ?task")
        case None
        with True r "1.prems" have "s' = set_phase s ?task ''Pending''"
          by (auto simp: resolve_from.simps [of n s] Let_def)
        with pending [OF "1.prems"(2) mem r None] show ?thesis by simp
      next
        case (Some i)
        with True r "1.prems" have "resolve_from (Suc n) (admit s ?task i) = (e, s')"
          by (simp add: resolve_from.simps [of n s])
        from "1.IH"(1) [OF True refl r Some this admit [OF "1.prems"(2) mem r Some]]
        show ?thesis .
      qed
    qed
  qed
qed

lemma complete_invariant:
  assumes "complete w s = (e, s')" and "P s"
    and pop: "\<And>u n. P u \<Longrightarrow> P (pop_future u n)"
    and failed: "\<And>u t. P u \<Longrightarrow> P (set_phase u t ''Failed'')"
    and pending: "\<And>u t. P u \<Longrightarrow> P (set_phase u t ''Pending'')"
    and outs: "\<And>u t x. P u \<Longrightarrow> P (set_outputs u t x)"
    and fin: "\<And>u t. P u \<Longrightarrow> t \<in> set (running u) \<Longrightarrow> P (mark_finished u t)"
    and admit: "\<And>u task i. P u \<Longrightarrow> task \<in> set (waiting u) \<Longrightarrow> ready u task \<Longrightarrow>
                  index_of (tasks u) task = Some i \<Longrightarrow> P (admit u task i)"
  shows "P s'"
proof -
  have f: "P u'" if "finish u t = (e, u')" and "P u" for u t u'
  proof (cases "t \<in> set (running u)")
    case False
    with that show ?thesis by (simp add: finish_eq)
  next
    case True
    with that have "resolve_from 0 (mark_finished u t) = (e, u')"
      by (simp add: finish_eq resolve_def)
    from resolve_from_invariant [of 0 _ e u' P, OF this fin [OF that(2) True]] admit pending
    show ?thesis by blast
  qed
  let ?s1 = "pop_future s (next_future w s)"
  have p1: "P ?s1" by (rule pop [OF assms(2)])
  show ?thesis
  proof (cases "futures s = []")
    case True
    with assms show ?thesis by (simp add: complete_def)
  next
    case ne: False
    let ?j = "snd (futures s ! next_future w s)"
    show ?thesis
    proof (cases "?j < length (tasks ?s1)")
      case False
      with ne assms(1) p1 show ?thesis by (simp add: complete_def Let_def)
    next
      case True
      let ?t = "tasks ?s1 ! ?j"
      show ?thesis
      proof (cases "snd (w s)")
        case (Returned x)
        with ne True assms(1) have "finish (set_outputs ?s1 ?t x) ?t = (e, s')"
          by (simp add: complete_def Let_def)
        from f [OF this outs [OF p1]] show ?thesis .
      next
        case Raised
        let ?s2 = "set_phase ?s1 ?t ''Failed''"
        have p2: "P ?s2" by (rule failed [OF p1])
        show ?thesis
        proof (cases "continue_on_failed (objs ?s2 ?t)")
          case False
          with ne True Raised assms(1) have "s' = ?s2" by (simp add: complete_def Let_def)
          with p2 show ?thesis by simp
        next
          case c: True
          with ne True Raised assms(1) have "finish ?s2 ?t = (e, s')"
            by (simp add: complete_def Let_def)
          from f [OF this p2] show ?thesis .
        qed
      qed
    qed
  qed
qed

lemma run_loop_invariant:
  assumes "run_loop w s = (e, s')" and "P s"
    and "\<And>u e' u'. P u \<Longrightarrow> running u \<noteq> [] \<Longrightarrow> complete w u = (e', u') \<Longrightarrow> P u'"
  shows "P s'"
  using assms
proof (induction w s arbitrary: e s' rule: run_loop.induct)
  case (1 w s)
  note step = "1.prems"(3)
  show ?case
  proof (cases "running s \<noteq> []")
    case False
    with "1.prems"(1,2) show ?thesis by (auto simp: run_loop.simps [of w s] split: if_splits)
  next
    case True
    obtain e1 s1 where c: "complete w s = (e1, s1)" by (cases "complete w s")
    have p1: "P s1" by (rule step [OF "1.prems"(2) True c])
    show ?thesis
    proof (cases e1)
      case None
      with True c "1.prems"(1) have r: "run_loop w s1 = (e, s')"
        by (simp add: run_loop.simps [of w s])
      show ?thesis
        by (rule "1.IH" [OF True c [symmetric] None r p1]) (rule step, assumption+)
    next
      case (Some x)
      with True c "1.prems"(1) have "s' = s1" by (simp add: run_loop.simps [of w s])
      with p1 show ?thesis by simp
    qed
  qed
qed


lemma started_after_deps_snoc:
  "started_after_deps deps (tr @ [ev]) \<longleftrightarrow>
     started_after_deps deps tr \<and> (\<forall>t. ev = Submit t \<longrightarrow> (\<forall>d \<in> set (deps t). Finish d \<in> set tr))"
proof
  assume a: "started_after_deps deps (tr @ [ev])"
  have "started_after_deps deps tr"
    unfolding started_after_deps_def
  proof (intro allI impI)
    fix i t assume i: "i < length tr" and "tr ! i = Submit t"
    then have "(tr @ [ev]) ! i = Submit t" by (simp add: nth_append)
    with a i have "\<forall>d \<in> set (deps t). Finish d \<in> set (take i (tr @ [ev]))"
      by (simp add: started_after_deps_def)
    with i show "\<forall>d \<in> set (deps t). Finish d \<in> set (take i tr)" by simp
  qed
  moreover have "\<forall>t. ev = Submit t \<longrightarrow> (\<forall>d \<in> set (deps t). Finish d \<in> set tr)"
  proof (intro allI impI)
    fix t assume "ev = Submit t"
    then have "(tr @ [ev]) ! length tr = Submit t" by simp
    with a have "\<forall>d \<in> set (deps t). Finish d \<in> set (take (length tr) (tr @ [ev]))"
      unfolding started_after_deps_def by (metis length_append_singleton lessI)
    then show "\<forall>d \<in> set (deps t). Finish d \<in> set tr" by simp
  qed
  ultimately show "started_after_deps deps tr
     \<and> (\<forall>t. ev = Submit t \<longrightarrow> (\<forall>d \<in> set (deps t). Finish d \<in> set tr))" by blast
next
  assume a: "started_after_deps deps tr
     \<and> (\<forall>t. ev = Submit t \<longrightarrow> (\<forall>d \<in> set (deps t). Finish d \<in> set tr))"
  show "started_after_deps deps (tr @ [ev])"
    unfolding started_after_deps_def
  proof (intro allI impI)
    fix i t assume i: "i < length (tr @ [ev])" and e: "(tr @ [ev]) ! i = Submit t"
    show "\<forall>d \<in> set (deps t). Finish d \<in> set (take i (tr @ [ev]))"
    proof (cases "i < length tr")
      case True
      with e have "tr ! i = Submit t" by (simp add: nth_append)
      with a True have "\<forall>d \<in> set (deps t). Finish d \<in> set (take i tr)"
        by (simp add: started_after_deps_def)
      with True show ?thesis by simp
    next
      case False
      with i have il: "i = length tr" by simp
      with e have "ev = Submit t" by simp
      with a il show ?thesis by simp
    qed
  qed
qed

lemma trace_inv_pop: "trace_inv deps u \<Longrightarrow> trace_inv deps (pop_future u n)"
  by (simp add: trace_inv_def pop_future_def)

lemma trace_inv_phase: "trace_inv deps u \<Longrightarrow> trace_inv deps (set_phase u t p)"
  by (simp add: trace_inv_def set_phase_def)

lemma trace_inv_outputs: "trace_inv deps u \<Longrightarrow> trace_inv deps (set_outputs u t x)"
  by (simp add: trace_inv_def set_outputs_def)

lemma trace_inv_finished: "trace_inv deps u \<Longrightarrow> trace_inv deps (mark_finished u t)"
  by (auto simp: trace_inv_def mark_finished_def started_after_deps_snoc)

lemma trace_inv_admit:
  "trace_inv deps u \<Longrightarrow> ready u task \<Longrightarrow> trace_inv deps (admit u task i)"
  by (auto simp: trace_inv_def admit_def set_phase_def started_after_deps_snoc ready_def
      list_all_iff)

lemma trace_inv_complete:
  "trace_inv deps u \<Longrightarrow> complete w u = (e, u') \<Longrightarrow> trace_inv deps u'"
  by (rule complete_invariant [where P = "trace_inv deps"])
     (simp_all add: trace_inv_pop trace_inv_phase trace_inv_outputs trace_inv_finished
        trace_inv_admit)

lemma trace_inv_run:
  assumes "run w dag = (e, s)"
  shows "trace_inv (\<lambda>t. dependencies (objs dag t)) s"
proof -
  let ?deps = "\<lambda>t. dependencies (objs dag t)"
  obtain e0 s0 where r: "resolve_from 0 (run_start dag) = (e0, s0)"
    by (cases "resolve_from 0 (run_start dag)")
  have "trace_inv ?deps (run_start dag)"
    by (simp add: trace_inv_def run_start_def started_after_deps_def)
  then have i0: "trace_inv ?deps s0"
    by (rule resolve_from_invariant [OF r]) (simp_all add: trace_inv_admit trace_inv_phase)
  show ?thesis
  proof (cases e0)
    case (Some x)
    with assms r have "s = s0" by (simp add: run_def resolve_def)
    with i0 show ?thesis by simp
  next
    case None
    with assms r have "run_loop w s0 = (e, s)" by (simp add: run_def resolve_def)
    then show ?thesis
      by (rule run_loop_invariant [where P = "trace_inv ?deps", OF _ i0]) (rule trace_inv_complete)
  qed
qed

text \<open>
  Claim C1. In every run, whatever the environment and however the run ends, a task is
  submitted to the pool only after each of its dependencies was appended to \<open>finished\<close>:
  every \<open>Submit t\<close> in the trace is preceded by \<open>Finish d\<close> for each dependency \<open>d\<close> of \<open>t\<close>,
  and the trace's \<open>Finish\<close> events are the members of \<open>finished\<close>. The order among ready
  tasks is not fixed: for three tasks without dependencies, the two that are running
  together finish in either order, depending on the environment.
\<close>

theorem dispatch_after_dependencies:
  "(run w dag = (e, s) \<longrightarrow>
      (\<forall>i < length (trace s). \<forall>t. trace s ! i = Submit t \<longrightarrow>
         (\<forall>d \<in> set (dependencies (objs dag t)). Finish d \<in> set (take i (trace s))))
      \<and> (\<forall>d. d \<in> set (finished s) \<longleftrightarrow> Finish d \<in> set (trace s)))
   \<and> trace (snd (run first_done (example_dag [([], False), ([], False), ([], False)])))
       = [Submit 0, Submit 2, Finish 0, Submit 1, Finish 2, Finish 1]
   \<and> trace (snd (run last_done (example_dag [([], False), ([], False), ([], False)])))
       = [Submit 0, Submit 2, Finish 2, Submit 1, Finish 1, Finish 0]"
proof (intro conjI impI)
  assume "run w dag = (e, s)"
  from trace_inv_run [OF this]
  show "\<forall>i < length (trace s). \<forall>t. trace s ! i = Submit t \<longrightarrow>
         (\<forall>d \<in> set (dependencies (objs dag t)). Finish d \<in> set (take i (trace s)))"
    and "\<forall>d. d \<in> set (finished s) \<longleftrightarrow> Finish d \<in> set (trace s)"
    by (simp_all add: trace_inv_def started_after_deps_def)
next
  show "trace (snd (run first_done (example_dag [([], False), ([], False), ([], False)])))
       = [Submit 0, Submit 2, Finish 0, Submit 1, Finish 2, Finish 1]"
    by code_simp
next
  show "trace (snd (run last_done (example_dag [([], False), ([], False), ([], False)])))
       = [Submit 0, Submit 2, Finish 2, Submit 1, Finish 1, Finish 0]"
    by code_simp
qed

theorem dispatch_after_dependencies_witness:
  "trace (snd (run first_done (example_dag [([1], False), ([], False), ([0, 1], False)])))
     = [Submit 1, Finish 1, Submit 0, Finish 0, Submit 2, Finish 2]
   \<and> dependencies (objs (example_dag [([1], False), ([], False), ([0, 1], False)]) 0) = [1]
   \<and> Finish 1 \<in> set (take 2 (trace (snd (run first_done
          (example_dag [([1], False), ([], False), ([0, 1], False)])))))"
proof -
  let ?dag = "example_dag [([1], False), ([], False), ([0, 1], False)]"
  let ?r = "run first_done ?dag"
  have t: "trace (snd ?r) = [Submit 1, Finish 1, Submit 0, Finish 0, Submit 2, Finish 2]"
    by code_simp
  have d: "dependencies (objs ?dag 0) = [1]"
    by code_simp
  have "run first_done ?dag = (fst ?r, snd ?r)" by simp
  with dispatch_after_dependencies [of first_done ?dag "fst ?r" "snd ?r"]
  have "\<forall>i < length (trace (snd ?r)). \<forall>t. trace (snd ?r) ! i = Submit t \<longrightarrow>
         (\<forall>d \<in> set (dependencies (objs ?dag t)). Finish d \<in> set (take i (trace (snd ?r))))"
    by blast
  from this [rule_format, of 2 0 1] t d
  have "Finish 1 \<in> set (take 2 (trace (snd ?r)))" by simp
  with t d show ?thesis by blast
qed

lemma index_of_None: "index_of xs x = None \<longleftrightarrow> x \<notin> set xs"
  by (induction xs) auto

lemma index_of_Some: "index_of xs x = Some i \<Longrightarrow> i < length xs \<and> xs ! i = x"
  by (induction xs arbitrary: i) (auto split: if_splits)

lemma sets_inv_pop: "sets_inv u \<Longrightarrow> sets_inv (pop_future u n)"
  by (simp add: sets_inv_def pop_future_def)

lemma sets_inv_phase: "sets_inv u \<Longrightarrow> sets_inv (set_phase u t p)"
  by (simp add: sets_inv_def set_phase_def)

lemma sets_inv_outputs: "sets_inv u \<Longrightarrow> sets_inv (set_outputs u t x)"
  by (simp add: sets_inv_def set_outputs_def)

lemma mset_remove1_add: "x \<in> set xs \<Longrightarrow> add_mset x (mset (remove1 x xs)) = mset xs"
  by simp

lemma sets_inv_finished:
  assumes "sets_inv u" and "t \<in> set (running u)"
  shows "sets_inv (mark_finished u t)"
proof -
  have "mset (waiting u) + mset (remove1 t (running u)) + mset (finished u @ [t])
      = mset (waiting u) + add_mset t (mset (remove1 t (running u))) + mset (finished u)"
    by (simp del: mset_remove1)
  also have "\<dots> = mset (waiting u) + mset (running u) + mset (finished u)"
    by (simp only: mset_remove1_add [OF assms(2)])
  also have "\<dots> = mset (tasks u)" using assms(1) by (simp add: sets_inv_def)
  finally show ?thesis by (simp add: sets_inv_def mark_finished_def del: mset_remove1)
qed

lemma sets_inv_admit:
  assumes "sets_inv u" and "task \<in> set (waiting u)"
  shows "sets_inv (admit u task i)"
proof -
  have "mset (remove1 task (waiting u)) + mset (running u @ [task]) + mset (finished u)
      = add_mset task (mset (remove1 task (waiting u))) + mset (running u) + mset (finished u)"
    by (simp del: mset_remove1)
  also have "\<dots> = mset (waiting u) + mset (running u) + mset (finished u)"
    by (simp only: mset_remove1_add [OF assms(2)])
  also have "\<dots> = mset (tasks u)" using assms(1) by (simp add: sets_inv_def)
  finally show ?thesis by (simp add: sets_inv_def admit_def set_phase_def del: mset_remove1)
qed

lemma sets_inv_complete: "sets_inv u \<Longrightarrow> complete w u = (e, u') \<Longrightarrow> sets_inv u'"
  by (rule complete_invariant [where P = sets_inv])
     (simp_all add: sets_inv_pop sets_inv_phase sets_inv_outputs sets_inv_finished sets_inv_admit)






lemma static_pop: "static dag u \<Longrightarrow> static dag (pop_future u n)"
  by (simp add: static_def pop_future_def)

lemma static_phase: "static dag u \<Longrightarrow> static dag (set_phase u t p)"
  by (simp add: static_def set_phase_def)

lemma static_outputs: "static dag u \<Longrightarrow> static dag (set_outputs u t x)"
  by (simp add: static_def set_outputs_def)

lemma static_finished: "static dag u \<Longrightarrow> static dag (mark_finished u t)"
  by (simp add: static_def mark_finished_def)

lemma static_admit: "static dag u \<Longrightarrow> static dag (admit u task i)"
  by (simp add: static_def admit_def set_phase_def)

lemma static_complete: "static dag u \<Longrightarrow> complete w u = (e, u') \<Longrightarrow> static dag u'"
  by (rule complete_invariant [where P = "static dag"])
     (simp_all add: static_pop static_phase static_outputs static_finished static_admit)







lemma loop_head_run: "loop_head w dag s \<Longrightarrow> run w dag = run_loop w s"
proof (induction rule: loop_head.induct)
  case (start s)
  then show ?case by (simp add: run_def)
next
  case (pass s s')
  then show ?case by (simp add: run_loop.simps [of w s])
qed

lemma resolve_from_no_error:
  "resolve_from n s = (e, s') \<Longrightarrow> set (waiting s) \<subseteq> set (tasks s) \<Longrightarrow> e = None"
proof (induction n s arbitrary: e s' rule: resolve_from.induct)
  case (1 n s)
  show ?case
  proof (cases "n < length (waiting s)")
    case False
    with "1.prems" show ?thesis by (simp add: resolve_from.simps)
  next
    case True
    let ?task = "waiting s ! n"
    from True have mem: "?task \<in> set (waiting s)" by simp
    show ?thesis
    proof (cases "ready s ?task")
      case False
      with True "1.prems" have "resolve_from (Suc n) s = (e, s')"
        by (simp add: resolve_from.simps [of n s])
      from "1.IH"(2) [OF True refl False this "1.prems"(2)] show ?thesis .
    next
      case r: True
      from mem "1.prems"(2) have "?task \<in> set (tasks s)" by blast
      then obtain i where i: "index_of (tasks s) ?task = Some i"
        by (cases "index_of (tasks s) ?task") (simp_all add: index_of_None)
      with True r "1.prems" have c: "resolve_from (Suc n) (admit s ?task i) = (e, s')"
        by (simp add: resolve_from.simps [of n s])
      have "set (waiting (admit s ?task i)) \<subseteq> set (tasks (admit s ?task i))"
        using "1.prems"(2) set_remove1_subset [of ?task "waiting s"]
        by (auto simp: admit_def set_phase_def)
      from "1.IH"(1) [OF True refl r i c this] show ?thesis .
    qed
  qed
qed

lemma sets_inv_waiting: "sets_inv s \<Longrightarrow> set (waiting s) \<subseteq> set (tasks s)"
proof
  fix x assume "sets_inv s" and "x \<in> set (waiting s)"
  then have "x \<in># mset (waiting s) + mset (running s) + mset (finished s)" by simp
  with \<open>sets_inv s\<close> have "x \<in># mset (tasks s)" by (simp only: sets_inv_def)
  then show "x \<in> set (tasks s)" by simp
qed

lemma mset_map_pop:
  "n < length xs \<Longrightarrow>
   add_mset (g (xs ! n)) (mset (map g (take n xs @ drop (Suc n) xs))) = mset (map g xs)"
proof -
  assume "n < length xs"
  then have "xs = take n xs @ xs ! n # drop (Suc n) xs" by (rule id_take_nth_drop)
  then have "map g xs = map g (take n xs) @ g (xs ! n) # map g (drop (Suc n) xs)"
    by (metis list.simps(9) map_append)
  then have "mset (map g xs)
      = mset (map g (take n xs)) + add_mset (g (xs ! n)) (mset (map g (drop (Suc n) xs)))"
    by (simp only: mset_append mset.simps)
  then show ?thesis by simp
qed

lemma futures_inv_pop_finish:
  assumes f: "futures_inv s" and n: "n < length (futures s)"
    and u: "tasks u = tasks s" "running u = running s"
           "futures u = futures (pop_future s n)"
  shows "snd (futures s ! n) < length (tasks s)"
    and "tasks s ! snd (futures s ! n) \<in> set (running s)"
    and "futures_inv (mark_finished u (tasks s ! snd (futures s ! n)))"
proof -
  let ?g = "\<lambda>fj. tasks s ! snd fj"
  let ?t = "tasks s ! snd (futures s ! n)"
  from f n show "snd (futures s ! n) < length (tasks s)"
    by (simp add: futures_inv_def)
  from f have m: "mset (map ?g (futures s)) = mset (running s)" by (simp add: futures_inv_def)
  have a: "add_mset ?t (mset (map ?g (take n (futures s) @ drop (Suc n) (futures s))))
        = mset (running s)"
    using mset_map_pop [OF n, of ?g] m by simp
  then have "?t \<in># mset (running s)" by (metis union_single_eq_member)
  then show mem: "?t \<in> set (running s)" by simp
  from mem have "add_mset ?t (mset (remove1 ?t (running s))) = mset (running s)"
    by (rule mset_remove1_add)
  with a have "add_mset ?t (mset (map ?g (take n (futures s) @ drop (Suc n) (futures s))))
        = add_mset ?t (mset (remove1 ?t (running s)))"
    by (simp only:)
  then have eq: "mset (map ?g (take n (futures s) @ drop (Suc n) (futures s)))
        = mset (remove1 ?t (running s))"
    by (simp only: add_mset_add_mset_same_iff)
  have sub: "\<forall>fj \<in> set (take n (futures s) @ drop (Suc n) (futures s)). snd fj < length (tasks s)"
    using f by (auto simp: futures_inv_def dest: in_set_takeD in_set_dropD)
  show "futures_inv (mark_finished u ?t)"
    using eq sub u by (simp add: futures_inv_def mark_finished_def pop_future_def del: mset_remove1)
qed

lemma futures_inv_admit:
  "futures_inv u \<Longrightarrow> index_of (tasks u) task = Some i \<Longrightarrow> futures_inv (admit u task i)"
  by (auto simp: futures_inv_def admit_def set_phase_def dest: index_of_Some)

lemma futures_inv_phase: "futures_inv u \<Longrightarrow> futures_inv (set_phase u t p)"
  by (simp add: futures_inv_def set_phase_def)

lemma futures_inv_resolve:
  "resolve_from n u = (e, u') \<Longrightarrow> futures_inv u \<Longrightarrow> futures_inv u'"
  by (rule resolve_from_invariant [where P = futures_inv])
     (simp_all add: futures_inv_admit futures_inv_phase)


lemma complete_eq:
  assumes fi: "futures_inv s" and run: "running s \<noteq> []"
  shows "futures s \<noteq> []"
    and "snd (futures s ! next_future w s) < length (tasks s)"
    and "tasks s ! snd (futures s ! next_future w s) \<in> set (running s)"
    and "complete w s =
      (case snd (w s) of
         Raised \<Rightarrow>
           if \<not> continue_on_failed (objs s (tasks s ! snd (futures s ! next_future w s)))
           then (Some RuntimeError,
                 set_phase (pop_future s (next_future w s))
                   (tasks s ! snd (futures s ! next_future w s)) ''Failed'')
           else resolve (mark_finished
                  (set_phase (pop_future s (next_future w s))
                     (tasks s ! snd (futures s ! next_future w s)) ''Failed'')
                  (tasks s ! snd (futures s ! next_future w s)))
       | Returned outs \<Rightarrow>
           resolve (mark_finished
             (set_outputs (pop_future s (next_future w s))
                (tasks s ! snd (futures s ! next_future w s)) outs)
             (tasks s ! snd (futures s ! next_future w s))))"
proof -
  let ?n = "next_future w s"
  let ?t = "tasks s ! snd (futures s ! ?n)"
  from fi run have "mset (map (\<lambda>fj. tasks s ! snd fj) (futures s)) \<noteq> {#}"
    by (simp add: futures_inv_def)
  then show ne: "futures s \<noteq> []" by auto
  then have n: "?n < length (futures s)" by (simp add: next_future_def)
  show j: "snd (futures s ! ?n) < length (tasks s)" and mem: "?t \<in> set (running s)"
    using futures_inv_pop_finish(1,2) [OF fi n, of "pop_future s ?n"]
    by (simp_all add: pop_future_def)
  show "complete w s =
      (case snd (w s) of
         Raised \<Rightarrow>
           if \<not> continue_on_failed (objs s ?t)
           then (Some RuntimeError, set_phase (pop_future s ?n) ?t ''Failed'')
           else resolve (mark_finished (set_phase (pop_future s ?n) ?t ''Failed'') ?t)
       | Returned outs \<Rightarrow>
           resolve (mark_finished (set_outputs (pop_future s ?n) ?t outs) ?t))"
    using ne j mem
    by (simp add: complete_def Let_def finish_def pop_future_def set_phase_def set_outputs_def
        split: outcome.splits)
qed


lemma sets_inv_start: "sets_inv (run_start dag)"
  by (simp add: sets_inv_def run_start_def)

lemma futures_inv_start: "futures_inv (run_start dag)"
  by (simp add: futures_inv_def run_start_def)

lemma static_start: "static dag (run_start dag)"
  by (simp add: static_def run_start_def)

lemma sets_inv_resolve: "resolve_from n u = (e, u') \<Longrightarrow> sets_inv u \<Longrightarrow> sets_inv u'"
  by (rule resolve_from_invariant [where P = sets_inv])
     (simp_all add: sets_inv_admit sets_inv_phase)

lemma static_resolve: "resolve_from n u = (e, u') \<Longrightarrow> static dag u \<Longrightarrow> static dag u'"
  by (rule resolve_from_invariant [where P = "static dag"])
     (simp_all add: static_admit static_phase)

lemma futures_inv_complete:
  assumes "futures_inv s" and "running s \<noteq> []" and "complete w s = (None, s')"
  shows "futures_inv s'"
proof -
  let ?n = "next_future w s"
  let ?t = "tasks s ! snd (futures s ! ?n)"
  from complete_eq(1) [OF assms(1,2)] have n: "?n < length (futures s)"
    by (simp add: next_future_def)
  have r: "futures_inv s'" if "resolve (mark_finished u ?t) = (None, s')"
    and "tasks u = tasks s" "running u = running s" "futures u = futures (pop_future s ?n)" for u
    using futures_inv_resolve [of 0 "mark_finished u ?t" None s']
      futures_inv_pop_finish(3) [OF assms(1) n that(2,3,4)] that(1)
    by (simp add: resolve_def)
  show ?thesis
  proof (cases "snd (w s)")
    case (Returned outs)
    with assms(3) complete_eq(4) [OF assms(1,2), of w]
    have "resolve (mark_finished (set_outputs (pop_future s ?n) ?t outs) ?t) = (None, s')"
      by simp
    then show ?thesis by (rule r) (simp_all add: set_outputs_def pop_future_def)
  next
    case Raised
    with assms(3) complete_eq(4) [OF assms(1,2), of w]
    have "resolve (mark_finished (set_phase (pop_future s ?n) ?t ''Failed'') ?t) = (None, s')"
      by (simp split: if_splits)
    then show ?thesis by (rule r) (simp_all add: set_phase_def pop_future_def)
  qed
qed

lemma loop_head_inv:
  "loop_head w dag s \<Longrightarrow> sets_inv s \<and> futures_inv s \<and> static dag s"
proof (induction rule: loop_head.induct)
  case (start s)
  then have r: "resolve_from 0 (run_start dag) = (None, s)" by (simp add: resolve_def)
  from sets_inv_resolve [OF r sets_inv_start] futures_inv_resolve [OF r futures_inv_start]
    static_resolve [OF r static_start]
  show ?case by simp
next
  case (pass s s')
  then show ?case
    using sets_inv_complete [of s w None s'] static_complete [of dag s w None s']
      futures_inv_complete [of s w s']
    by simp
qed

lemma resolve_from_finished:
  "resolve_from n u = (e, u') \<Longrightarrow> finished u' = finished u"
  by (rule resolve_from_invariant [where P = "\<lambda>v. finished v = finished u"])
     (simp_all add: admit_def set_phase_def)

lemma resolve_from_frame:
  assumes "resolve_from n u = (e, u')" and "x \<notin> set (waiting u)"
  shows "objs u' x = objs u x"
proof -
  have "x \<notin> set (waiting u') \<and> objs u' x = objs u x"
  proof (rule resolve_from_invariant
      [where P = "\<lambda>v. x \<notin> set (waiting v) \<and> objs v x = objs u x", OF assms(1)])
    show "x \<notin> set (waiting u) \<and> objs u x = objs u x" using assms(2) by simp
  next
    fix v :: DAG and task i
    assume "x \<notin> set (waiting v) \<and> objs v x = objs u x" and "task \<in> set (waiting v)"
    then show "x \<notin> set (waiting (admit v task i)) \<and> objs (admit v task i) x = objs u x"
      using set_remove1_subset [of task "waiting v"]
      by (auto simp: admit_def set_phase_def)
  next
    fix v :: DAG and task
    assume "x \<notin> set (waiting v) \<and> objs v x = objs u x" and "task \<in> set (waiting v)"
    then show "x \<notin> set (waiting (set_phase v task ''Pending''))
        \<and> objs (set_phase v task ''Pending'') x = objs u x"
      by (auto simp: set_phase_def)
  qed
  then show ?thesis by simp
qed

lemma resolve_from_running:
  "resolve_from n u = (e, u') \<Longrightarrow> x \<in> set (running u) \<Longrightarrow> x \<in> set (running u')"
  by (rule resolve_from_invariant [where P = "\<lambda>v. x \<in> set (running v)"])
     (simp_all add: admit_def set_phase_def)

lemma resolve_from_first_ready:
  "resolve_from n u = (None, u') \<Longrightarrow> n \<le> k \<Longrightarrow> k < length (waiting u) \<Longrightarrow>
   ready u (waiting u ! k) \<Longrightarrow> (\<forall>k'. n \<le> k' \<and> k' < k \<longrightarrow> \<not> ready u (waiting u ! k')) \<Longrightarrow>
   waiting u ! k \<in> set (running u')"
proof (induction n u arbitrary: u' rule: resolve_from.induct)
  case (1 n s)
  from "1.prems"(2,3) have True: "n < length (waiting s)" by simp
  let ?task = "waiting s ! n"
  show ?case
  proof (cases "n = k")
    case eq: True
    with "1.prems"(4) have r: "ready s ?task" by simp
    show ?thesis
    proof (cases "index_of (tasks s) ?task")
      case None
      with True r "1.prems"(1) show ?thesis
        by (simp add: resolve_from.simps [of n s] Let_def)
    next
      case (Some i)
      with True r "1.prems"(1) have c: "resolve_from (Suc n) (admit s ?task i) = (None, u')"
        by (simp add: resolve_from.simps [of n s])
      have "?task \<in> set (running (admit s ?task i))" by (simp add: admit_def set_phase_def)
      from resolve_from_running [OF c this] eq show ?thesis by simp
    qed
  next
    case False
    with "1.prems"(2) have lt: "n < k" by simp
    with "1.prems"(5) have nr: "\<not> ready s ?task" by simp
    with True "1.prems"(1) have c: "resolve_from (Suc n) s = (None, u')"
      by (simp add: resolve_from.simps [of n s])
    from "1.IH"(2) [OF True refl nr c _ "1.prems"(3,4)] lt "1.prems"(5)
    show ?thesis by simp
  qed
qed

lemma running_not_waiting:
  assumes "sets_inv s" and "distinct (tasks s)" and "t \<in> set (running s)"
  shows "t \<notin> set (waiting s)"
proof
  assume w: "t \<in> set (waiting s)"
  from assms(1)
  have "count (mset (waiting s) + mset (running s) + mset (finished s)) t = count (mset (tasks s)) t"
    by (simp only: sets_inv_def)
  moreover from assms(2) have "count (mset (tasks s)) t \<le> 1"
    by (simp add: distinct_count_atmost_1)
  moreover from w have "1 \<le> count (mset (waiting s)) t" by (simp add: Suc_le_eq)
  moreover from assms(3) have "1 \<le> count (mset (running s)) t" by (simp add: Suc_le_eq)
  ultimately show False by simp
qed

text \<open>
  The loop body when a future raises. At the head of the loop of a run, with some task
  running, let the future that completes next raise, and let \<open>t = tasks[j]\<close> be its task; \<open>t\<close> is a running task. The
  loop body raises \<open>RuntimeError\<close> exactly when \<open>t\<close> does not tolerate failure. In that case
  the whole run ends there with that error: \<open>t\<close> has phase \<open>Failed\<close>, and the pool, the trace
  and the three lists are as they were, so no task was admitted. When \<open>t\<close> tolerates failure
  the body does not raise, \<open>t\<close> is appended to \<open>finished\<close>, the run goes on from the new
  state, \<open>t\<close> has phase \<open>Failed\<close> (for a task list without repetition), and \<open>resolve\<close> has
  admitted the first waiting task that is ready now.
\<close>

theorem failure_handling:
  assumes lh: "loop_head w dag s" and run: "running s \<noteq> []" and raised: "snd (w s) = Raised"
    and t: "t = tasks s ! snd (futures s ! next_future w s)"
    and c: "complete w s = (e, s')"
  shows "t \<in> set (running s)
    \<and> (e = Some RuntimeError) = (\<not> continue_on_failed (objs dag t))
    \<and> (\<not> continue_on_failed (objs dag t) \<longrightarrow>
          run w dag = (Some RuntimeError, s') \<and> phase (objs s' t) = ''Failed''
          \<and> pool s' = pool s \<and> trace s' = trace s \<and> waiting s' = waiting s
          \<and> running s' = running s \<and> finished s' = finished s)
    \<and> (continue_on_failed (objs dag t) \<longrightarrow>
          e = None \<and> loop_head w dag s' \<and> finished s' = finished s @ [t]
          \<and> (distinct (tasks dag) \<longrightarrow> phase (objs s' t) = ''Failed'')
          \<and> (\<forall>k < length (waiting s).
                ready (s\<lparr>finished := finished s @ [t]\<rparr>) (waiting s ! k)
                \<and> (\<forall>k' < k. \<not> ready (s\<lparr>finished := finished s @ [t]\<rparr>) (waiting s ! k'))
                \<longrightarrow> waiting s ! k \<in> set (running s')))"
proof -
  from loop_head_inv [OF lh] have si: "sets_inv s" and fi: "futures_inv s" and st: "static dag s"
    by simp_all
  let ?n = "next_future w s"
  let ?s2 = "set_phase (pop_future s ?n) t ''Failed''"
  let ?s3 = "mark_finished ?s2 t"
  from st have cof: "continue_on_failed (objs s t) = continue_on_failed (objs dag t)"
    and ts: "tasks s = tasks dag"
    by (simp_all add: static_def)
  from complete_eq(3) [OF fi run, of w] t have mem: "t \<in> set (running s)" by simp
  from complete_eq(4) [OF fi run, of w] raised t cof
  have ceq: "complete w s =
      (if \<not> continue_on_failed (objs dag t) then (Some RuntimeError, ?s2) else resolve ?s3)"
    by simp
  have abort: "run w dag = (Some RuntimeError, s') \<and> phase (objs s' t) = ''Failed''
          \<and> pool s' = pool s \<and> trace s' = trace s \<and> waiting s' = waiting s
          \<and> running s' = running s \<and> finished s' = finished s \<and> e = Some RuntimeError"
    if n: "\<not> continue_on_failed (objs dag t)"
  proof -
    from ceq c n have e: "e = Some RuntimeError" and s': "s' = ?s2" by simp_all
    have "run_loop w s = (Some RuntimeError, s')"
      using run c e by (simp add: run_loop.simps [of w s])
    with loop_head_run [OF lh] have "run w dag = (Some RuntimeError, s')" by simp
    then show ?thesis using e by (simp add: s' set_phase_def pop_future_def)
  qed
  have tolerated: "e = None \<and> loop_head w dag s' \<and> finished s' = finished s @ [t]
          \<and> (distinct (tasks dag) \<longrightarrow> phase (objs s' t) = ''Failed'')
          \<and> (\<forall>k < length (waiting s).
                ready (s\<lparr>finished := finished s @ [t]\<rparr>) (waiting s ! k)
                \<and> (\<forall>k' < k. \<not> ready (s\<lparr>finished := finished s @ [t]\<rparr>) (waiting s ! k'))
                \<longrightarrow> waiting s ! k \<in> set (running s'))"
    if y: "continue_on_failed (objs dag t)"
  proof -
    from ceq c y have r: "resolve_from 0 ?s3 = (e, s')" by (simp add: resolve_def)
    have m2: "t \<in> set (running ?s2)" using mem by (simp add: set_phase_def pop_future_def)
    have "sets_inv ?s3"
      by (rule sets_inv_finished [OF sets_inv_phase [OF sets_inv_pop [OF si]] m2])
    from resolve_from_no_error [OF r sets_inv_waiting [OF this]] have e: "e = None" .
    with c have "complete w s = (None, s')" by simp
    from loop_head.pass [OF lh run this] have l: "loop_head w dag s'" .
    have f: "finished s' = finished s @ [t]"
      using resolve_from_finished [OF r]
      by (simp add: mark_finished_def set_phase_def pop_future_def)
    have p: "phase (objs s' t) = ''Failed''" if d: "distinct (tasks dag)"
    proof -
      from running_not_waiting [OF si _ mem] d ts have "t \<notin> set (waiting s)" by simp
      then have "t \<notin> set (waiting ?s3)"
        by (simp add: mark_finished_def set_phase_def pop_future_def)
      from resolve_from_frame [OF r this] show ?thesis
        by (simp add: mark_finished_def set_phase_def pop_future_def)
    qed
    have w3: "waiting ?s3 = waiting s"
      by (simp add: mark_finished_def set_phase_def pop_future_def)
    have rd: "ready ?s3 x = ready (s\<lparr>finished := finished s @ [t]\<rparr>) x" for x
      by (simp add: ready_def mark_finished_def set_phase_def pop_future_def)
    have a: "waiting s ! k \<in> set (running s')"
      if "k < length (waiting s)" and "ready (s\<lparr>finished := finished s @ [t]\<rparr>) (waiting s ! k)"
        and "\<forall>k' < k. \<not> ready (s\<lparr>finished := finished s @ [t]\<rparr>) (waiting s ! k')" for k
      using resolve_from_first_ready [of 0 ?s3 s' k] r e that
      by (simp add: w3 rd)
    from e l f p a show ?thesis by blast
  qed
  from mem abort tolerated show ?thesis by blast
qed


theorem failure_handling_witness:
  "snd (first_fails (snd (resolve (run_start (example_dag [([1], False), ([], True), ([0, 1], False)])))))
     = Raised
   \<and> continue_on_failed (objs (example_dag [([1], False), ([], True), ([0, 1], False)]) 1)
   \<and> fst (complete first_fails
          (snd (resolve (run_start (example_dag [([1], False), ([], True), ([0, 1], False)])))))
       = None
   \<and> finished (snd (complete first_fails
          (snd (resolve (run_start (example_dag [([1], False), ([], True), ([0, 1], False)]))))))
       = [1]
   \<and> phase (objs (snd (complete first_fails
          (snd (resolve (run_start (example_dag [([1], False), ([], True), ([0, 1], False)])))))) 1)
       = ''Failed''
   \<and> running (snd (complete first_fails
          (snd (resolve (run_start (example_dag [([1], False), ([], True), ([0, 1], False)]))))))
       = [0]"
proof -
  let ?dag = "example_dag [([1], False), ([], True), ([0, 1], False)]"
  let ?s = "snd (resolve (run_start ?dag))"
  let ?c = "complete first_fails ?s"
  have "fst (resolve (run_start ?dag)) = None" by code_simp
  then have "resolve (run_start ?dag) = (None, ?s)" by (simp add: prod_eq_iff)
  then have lh: "loop_head first_fails ?dag ?s" by (rule loop_head.start)
  have run: "running ?s \<noteq> []" by code_simp
  have raised: "snd (first_fails ?s) = Raised" by code_simp
  have t: "1 = tasks ?s ! snd (futures ?s ! next_future first_fails ?s)" by code_simp
  have c: "?c = (fst ?c, snd ?c)" by simp
  have cof: "continue_on_failed (objs ?dag 1)" by code_simp
  have d: "distinct (tasks ?dag)" by code_simp
  from failure_handling [OF lh run raised t c] cof d
  have "fst ?c = None" and "finished (snd ?c) = finished ?s @ [1]"
    and "phase (objs (snd ?c) 1) = ''Failed''"
    by blast+
  moreover have "finished ?s = []" by code_simp
  moreover have "running (snd ?c) = [0]" by code_simp
  ultimately show ?thesis using raised cof by simp
qed

text \<open>
  Claim C3. A future that raises marks its task \<open>Failed\<close>, the run aborts exactly when the
  task does not tolerate failure, and nothing is admitted after an abort: so far the
  code does what the claim says. After a tolerated failure the claim has the run admit the
  tasks that became ready, and here the code departs from it. \<open>resolve\<close> removes the task
  it admits from \<open>self.waiting\<close> while it iterates over that list, so the iteration passes
  over the task that follows an admitted one. In \<open>fan_out\<close> task 0 is admitted alone and
  its future raises, which is tolerated: task 0 is \<open>Failed\<close> and finished, and tasks 1 and
  2, whose only dependency it is, are both ready. \<open>resolve\<close> admits task 1 and leaves task
  2 waiting, in phase \<open>Waiting\<close> and unknown to the pool. When the future of task 1 raises
  next, the run aborts with \<open>RuntimeError\<close>, and task 2 was never admitted.
\<close>

theorem resolve_skips_ready_task:
  "resolve (run_start fan_out) = (None, snd (resolve (run_start fan_out)))
   \<and> waiting (snd (resolve (run_start fan_out))) = [1, 2]
   \<and> running (snd (resolve (run_start fan_out))) = [0]
   \<and> snd (always_fails (snd (resolve (run_start fan_out)))) = Raised
   \<and> continue_on_failed (objs fan_out 0)
   \<and> fst (complete always_fails (snd (resolve (run_start fan_out)))) = None
   \<and> phase (objs (snd (complete always_fails (snd (resolve (run_start fan_out))))) 0) = ''Failed''
   \<and> finished (snd (complete always_fails (snd (resolve (run_start fan_out))))) = [0]
   \<and> ready (snd (complete always_fails (snd (resolve (run_start fan_out))))) 1
   \<and> ready (snd (complete always_fails (snd (resolve (run_start fan_out))))) 2
   \<and> running (snd (complete always_fails (snd (resolve (run_start fan_out))))) = [1]
   \<and> waiting (snd (complete always_fails (snd (resolve (run_start fan_out))))) = [2]
   \<and> pool (snd (complete always_fails (snd (resolve (run_start fan_out))))) = [0, 1]
   \<and> phase (objs (snd (complete always_fails (snd (resolve (run_start fan_out))))) 2) = ''Waiting''
   \<and> fst (run always_fails fan_out) = Some RuntimeError
   \<and> trace (snd (run always_fails fan_out)) = [Submit 0, Finish 0, Submit 1]
   \<and> pool (snd (run always_fails fan_out)) = [0, 1]
   \<and> waiting (snd (run always_fails fan_out)) = [2]"
proof -
  let ?s = "snd (resolve (run_start fan_out))"
  let ?s' = "snd (complete always_fails ?s)"
  let ?end = "snd (run always_fails fan_out)"
  have "fst (resolve (run_start fan_out)) = None" by code_simp
  then have a: "resolve (run_start fan_out) = (None, ?s)" by (simp add: prod_eq_iff)
  have b: "waiting ?s = [1, 2]" "running ?s = [0]" by code_simp+
  have c: "snd (always_fails ?s) = Raised" "continue_on_failed (objs fan_out 0)" by code_simp+
  have d: "fst (complete always_fails ?s) = None" "phase (objs ?s' 0) = ''Failed''"
    "finished ?s' = [0]" by code_simp+
  have e: "ready ?s' 1" "ready ?s' 2" by code_simp+
  have f: "running ?s' = [1]" "waiting ?s' = [2]" "pool ?s' = [0, 1]"
    "phase (objs ?s' 2) = ''Waiting''" by code_simp+
  have g: "fst (run always_fails fan_out) = Some RuntimeError"
    "trace ?end = [Submit 0, Finish 0, Submit 1]" "pool ?end = [0, 1]" "waiting ?end = [2]"
    by code_simp+
  from a b c d e f g show ?thesis by simp
qed












end
